theory Spec2Isabelle
  imports Main "HOL-Library.Multiset"
begin

section \<open>The query cursor of KagoDB (core/cursor.js, mixin/find.js)\<close>

text \<open>
  The cursor is a chain of stage objects. Every stage answers \<^verbatim>\<open>nextObject(callback)\<close>
  by calling the callback once, with an error, with an item, or with neither (the end of
  the sequence). The storage calls back asynchronously, but never more than one call is in
  flight, so the continuation-passing code is modelled in direct style: a call takes the
  stage and the list of storage calls made so far and returns what the callback received,
  the stage as the call left it, and the extended list of storage calls.
\<close>

subsection \<open>The storage collaborator\<close>

text \<open>
  The storage mixins are not part of the modelled sources. A collection is what the cursor
  sees of one: \<^verbatim>\<open>index(callback)\<close> answers with an error or the list of ids (so the
  guard \<^verbatim>\<open>list || []\<close> of the Source never replaces anything),
  \<^verbatim>\<open>read(id, callback)\<close> with an error, an item, or no error and a falsy item
  (\<open>Inr None\<close>). The storage is fixed while a query runs; the calls made to it are
  recorded.
\<close>

datatype 'k call = Index | Read 'k

record ('e, 'k, 'a) collection =
  index :: "'e + 'k list"
  read :: "'k \<Rightarrow> 'e + 'a option"

subsection \<open>Query specifications, errors and callback results\<close>

text \<open>
  \<^verbatim>\<open>ConditionOp.parser\<close> and \<^verbatim>\<open>ProjectionOp.parser\<close> are not part of the modelled
  sources. The constructor only tests their argument and their result for truthiness, and
  the stages only test \<^verbatim>\<open>typeof ... == 'function'\<close>, so a specification is given
  as what these tests can see: \<open>Absent\<close> (the argument or the parsed value is falsy),
  \<open>NotCallable\<close> (a truthy value that is not a function) or \<open>Callable f\<close>.
  A projection function may return a falsy value (\<open>None\<close>).
\<close>

datatype 'f parsed = Absent | NotCallable | Callable 'f

datatype 'e error = Backend 'e | InvalidCondition | InvalidProjection

text \<open>
  An exception thrown instead of a callback: \<^verbatim>\<open>new Error('no source')\<close> of
  \<^verbatim>\<open>Proto.prototype.nextObject\<close> and \<^verbatim>\<open>rewind\<close>, and the TypeError of a method call
  on an undefined upstream.
\<close>

datatype exn = NoSource | TypeError

text \<open>
  What the callback of \<^verbatim>\<open>nextObject\<close> receives: \<open>Err e\<close> is \<^verbatim>\<open>callback(err)\<close>,
  \<open>Item x\<close> is \<^verbatim>\<open>callback(null, item)\<close> with a truthy item, \<open>Eof\<close> is a callback with
  no error and no truthy item (every consumer tests \<^verbatim>\<open>!item\<close>), and \<open>Throw t\<close> means that
  the callback was never called because \<open>t\<close> was thrown.
\<close>

datatype ('e, 'a) outcome = Err "'e error" | Eof | Item 'a | Throw exn

text \<open>What the callback of \<^verbatim>\<open>toArray\<close>, \<^verbatim>\<open>index\<close> or \<^verbatim>\<open>count\<close> receives.\<close>

datatype ('e, 'r) reply = Failure "'e error" | Success 'r | Raised exn

subsection \<open>Stages\<close>

text \<open>
  One constructor per stage class, with the fields the class assigns:
  \<^item> \<open>Source collection list\<close>: \<^verbatim>\<open>this.list\<close> is undefined until the ids are fetched;
  \<^item> \<open>Condition source condition\<close>, \<open>Projection source projection\<close>;
  \<^item> \<open>Sort source sorter list\<close>: \<^verbatim>\<open>this.list\<close> is the sorted buffer once it is filled;
  \<^item> \<open>Offset source offset ready\<close>;
  \<^item> \<open>Limit source limit rest\<close>.
  The upstream \<^verbatim>\<open>this.source\<close> of a decorating stage is whatever the constructor was
  given, possibly undefined (\<open>None\<close>). Numbers are integers.
\<close>

datatype ('e, 'k, 'a) stage =
    Source "('e, 'k, 'a) collection" "'k list option"
  | Condition "('e, 'k, 'a) stage option" "('a \<Rightarrow> bool) parsed"
  | Projection "('e, 'k, 'a) stage option" "('a \<Rightarrow> 'a option) parsed"
  | Sort "('e, 'k, 'a) stage option" "'a \<Rightarrow> 'a \<Rightarrow> int" "'a list option"
  | Offset "('e, 'k, 'a) stage option" int bool
  | Limit "('e, 'k, 'a) stage option" int int

subsection \<open>Array.prototype.sort with a comparator\<close>

text \<open>
  \<^verbatim>\<open>list.sort(sorter)\<close> is modelled as a stable insertion sort: \<open>x\<close> goes before \<open>y\<close>
  when \<open>sorter x y \<le> 0\<close>. For a consistent comparator every engine returns a list ordered
  by it; the order of items that compare equal is the stable one of ECMAScript 2019.
\<close>

fun insort_by :: "('a \<Rightarrow> 'a \<Rightarrow> int) \<Rightarrow> 'a \<Rightarrow> 'a list \<Rightarrow> 'a list" where
  "insort_by c x [] = [x]"
| "insort_by c x (y # ys) = (if c x y \<le> 0 then x # y # ys else y # insort_by c x ys)"

definition Array_sort :: "('a \<Rightarrow> 'a \<Rightarrow> int) \<Rightarrow> 'a list \<Rightarrow> 'a list" where
  "Array_sort c xs = foldr (insort_by c) xs []"

subsection \<open>A bound on the items a stage can still deliver\<close>

text \<open>
  Used to show that the pulling loops end: \<open>pending\<close> bounds the number of items a stage
  can still hand out, \<open>depth\<close> is the length of the chain below it.
\<close>

fun pending :: "('e, 'k, 'a) stage \<Rightarrow> nat" where
  "pending (Source coll None) = (case index coll of Inl e \<Rightarrow> 0 | Inr ks \<Rightarrow> Suc (length ks))"
| "pending (Source coll (Some ks)) = length ks"
| "pending (Condition None cond) = 0"
| "pending (Condition (Some s) cond) = pending s"
| "pending (Projection None projection) = 0"
| "pending (Projection (Some s) projection) = pending s"
| "pending (Sort src sorter (Some xs)) = length xs"
| "pending (Sort None sorter None) = Suc 0"
| "pending (Sort (Some s) sorter None) = Suc (pending s)"
| "pending (Offset None offset ready) = 0"
| "pending (Offset (Some s) offset ready) = pending s"
| "pending (Limit None limit rest) = 0"
| "pending (Limit (Some s) limit rest) = pending s"

fun pending_opt :: "('e, 'k, 'a) stage option \<Rightarrow> nat" where
  "pending_opt None = 0"
| "pending_opt (Some s) = pending s"

fun depth :: "('e, 'k, 'a) stage \<Rightarrow> nat" where
  "depth (Source coll l) = 0"
| "depth (Condition None cond) = 0"
| "depth (Condition (Some s) cond) = Suc (depth s)"
| "depth (Projection None projection) = 0"
| "depth (Projection (Some s) projection) = Suc (depth s)"
| "depth (Sort None sorter l) = 0"
| "depth (Sort (Some s) sorter l) = Suc (depth s)"
| "depth (Offset None offset ready) = 0"
| "depth (Offset (Some s) offset ready) = Suc (depth s)"
| "depth (Limit None limit rest) = 0"
| "depth (Limit (Some s) limit rest) = Suc (depth s)"

definition call_rank ::
  "(('e, 'k, 'a) stage \<times> 'k call list + ('a \<Rightarrow> bool) \<times> ('e, 'k, 'a) stage \<times> 'k call list) +
   ('e, 'k, 'a) stage \<times> int \<times> 'k call list +
   ('e, 'k, 'a) stage \<times> 'a list \<times> 'k call list +
   ('e, 'k, 'a) stage option \<times> 'k call list \<Rightarrow> nat \<times> nat" where
  "call_rank c =
     (case c of
        Inl (Inl (s, lg)) \<Rightarrow> (pending s, 2 * depth s + 1)
      | Inl (Inr (p, s, lg)) \<Rightarrow> (pending s, 2 * depth s + 2)
      | Inr (Inl (s, rest, lg)) \<Rightarrow> (pending s, 2 * depth s + 2)
      | Inr (Inr (Inl (s, buf, lg))) \<Rightarrow> (pending s, 2 * depth s + 2)
      | Inr (Inr (Inr (None, lg))) \<Rightarrow> (0, 0)
      | Inr (Inr (Inr (Some s, lg))) \<Rightarrow> (pending s, 2 * depth s + 3))"

subsection \<open>nextObject of every stage, and the toArray helper\<close>

text \<open>
  \<^item> \<open>nextObject\<close> is the \<^verbatim>\<open>nextObject\<close> method of the stage classes.
  \<^item> \<open>Condition_next p s lg\<close> is \<^verbatim>\<open>source.nextObject(next)\<close> inside
    \<^verbatim>\<open>Condition.prototype.nextObject\<close>: one pull, handled by the local function
    \<^verbatim>\<open>next\<close>, which pulls again on an item that fails the condition.
  \<^item> \<open>Offset_iterator s rest lg\<close> is \<^verbatim>\<open>source.nextObject(iterator)\<close> inside
    \<^verbatim>\<open>Offset.prototype.nextObject\<close> with the local counter \<^verbatim>\<open>rest\<close>; it also returns
    whether \<^verbatim>\<open>self.ready\<close> was set.
  \<^item> \<open>toArray_iterator s buf lg\<close> is \<^verbatim>\<open>source.nextObject(iterator)\<close> inside the
    module function \<^verbatim>\<open>toArray\<close> with the local buffer \<^verbatim>\<open>buf\<close>; \<open>toArray\<close> is that
    function.
\<close>

function
  nextObject :: "('e, 'k, 'a) stage \<Rightarrow> 'k call list \<Rightarrow>
    ('e, 'a) outcome \<times> ('e, 'k, 'a) stage \<times> 'k call list"
and Condition_next :: "('a \<Rightarrow> bool) \<Rightarrow> ('e, 'k, 'a) stage \<Rightarrow> 'k call list \<Rightarrow>
    ('e, 'a) outcome \<times> ('e, 'k, 'a) stage \<times> 'k call list"
and Offset_iterator :: "('e, 'k, 'a) stage \<Rightarrow> int \<Rightarrow> 'k call list \<Rightarrow>
    ('e, 'a) outcome \<times> ('e, 'k, 'a) stage \<times> bool \<times> 'k call list"
and toArray_iterator :: "('e, 'k, 'a) stage \<Rightarrow> 'a list \<Rightarrow> 'k call list \<Rightarrow>
    ('e, 'a list) reply \<times> ('e, 'k, 'a) stage \<times> 'k call list"
and toArray :: "('e, 'k, 'a) stage option \<Rightarrow> 'k call list \<Rightarrow>
    ('e, 'a list) reply \<times> ('e, 'k, 'a) stage option \<times> 'k call list"
where
  "nextObject (Source coll None) lg =
     (case index coll of
        Inl e \<Rightarrow> (Err (Backend e), Source coll None, lg @ [Index])
      | Inr ks \<Rightarrow> nextObject (Source coll (Some ks)) (lg @ [Index]))"
| "nextObject (Source coll (Some [])) lg = (Eof, Source coll (Some []), lg)"
| "nextObject (Source coll (Some (k # ks))) lg =
     (case read coll k of
        Inl e \<Rightarrow> (Err (Backend e), Source coll (Some ks), lg @ [Read k])
      | Inr None \<Rightarrow> (Eof, Source coll (Some ks), lg @ [Read k])
      | Inr (Some x) \<Rightarrow> (Item x, Source coll (Some ks), lg @ [Read k]))"
| "nextObject (Condition src cond) lg =
     (case cond of
        Callable p \<Rightarrow>
          (case src of
             None \<Rightarrow> (Throw TypeError, Condition src cond, lg)
           | Some s \<Rightarrow>
               (case Condition_next p s lg of
                  (r, s', lg') \<Rightarrow> (r, Condition (Some s') cond, lg')))
      | _ \<Rightarrow> (Err InvalidCondition, Condition src cond, lg))"
| "Condition_next p s lg =
     (case nextObject s lg of
        (Err e, s', lg') \<Rightarrow> (Err e, s', lg')
      | (Eof, s', lg') \<Rightarrow> (Eof, s', lg')
      | (Item x, s', lg') \<Rightarrow>
          if p x then (Item x, s', lg') else Condition_next p s' lg'
      | (Throw t, s', lg') \<Rightarrow> (Throw t, s', lg'))"
| "nextObject (Sort src sorter (Some [])) lg = (Eof, Sort src sorter (Some []), lg)"
| "nextObject (Sort src sorter (Some (x # xs))) lg = (Item x, Sort src sorter (Some xs), lg)"
| "nextObject (Sort src sorter None) lg =
     (case toArray src lg of
        (Failure e, src', lg') \<Rightarrow> (Err e, Sort src' sorter None, lg')
      | (Success buf, src', lg') \<Rightarrow>
          nextObject (Sort src' sorter (Some (Array_sort sorter buf))) lg'
      | (Raised t, src', lg') \<Rightarrow> (Throw t, Sort src' sorter None, lg'))"
| "toArray None lg = (Raised TypeError, None, lg)"
| "toArray (Some s) lg =
     (case toArray_iterator s [] lg of (r, s', lg') \<Rightarrow> (r, Some s', lg'))"
| "toArray_iterator s buf lg =
     (case nextObject s lg of
        (Err e, s', lg') \<Rightarrow> (Failure e, s', lg')
      | (Eof, s', lg') \<Rightarrow> (Success buf, s', lg')
      | (Item x, s', lg') \<Rightarrow> toArray_iterator s' (buf @ [x]) lg'
      | (Throw t, s', lg') \<Rightarrow> (Raised t, s', lg'))"
| "nextObject (Offset src offset ready) lg =
     (case src of
        None \<Rightarrow> (Throw TypeError, Offset src offset ready, lg)
      | Some s \<Rightarrow>
          if ready \<or> offset \<le> 0
          then (case nextObject s lg of
                  (r, s', lg') \<Rightarrow> (r, Offset (Some s') offset ready, lg'))
          else (case Offset_iterator s offset lg of
                  (r, s', ready', lg') \<Rightarrow> (r, Offset (Some s') offset ready', lg')))"
| "Offset_iterator s rest lg =
     (case nextObject s lg of
        (Err e, s', lg') \<Rightarrow> (Err e, s', False, lg')
      | (Eof, s', lg') \<Rightarrow> (Eof, s', False, lg')
      | (Item x, s', lg') \<Rightarrow>
          if rest - 1 > 0 then Offset_iterator s' (rest - 1) lg'
          else (case nextObject s' lg' of (r, s'', lg'') \<Rightarrow> (r, s'', True, lg''))
      | (Throw t, s', lg') \<Rightarrow> (Throw t, s', False, lg'))"
| "nextObject (Limit src limit rest) lg =
     (if rest > 0
      then (case src of
              None \<Rightarrow> (Throw TypeError, Limit src limit (rest - 1), lg)
            | Some s \<Rightarrow>
                (case nextObject s lg of
                   (r, s', lg') \<Rightarrow> (r, Limit (Some s') limit (rest - 1), lg')))
      else (Eof, Limit src limit (rest - 1), lg))"
| "nextObject (Projection src projection) lg =
     (case projection of
        Callable f \<Rightarrow>
          (case src of
             None \<Rightarrow> (Throw TypeError, Projection src projection, lg)
           | Some s \<Rightarrow>
               (case nextObject s lg of
                  (Err e, s', lg') \<Rightarrow> (Err e, Projection (Some s') projection, lg')
                | (Eof, s', lg') \<Rightarrow> (Eof, Projection (Some s') projection, lg')
                | (Item x, s', lg') \<Rightarrow>
                    (case f x of
                       None \<Rightarrow> (Eof, Projection (Some s') projection, lg')
                     | Some y \<Rightarrow> (Item y, Projection (Some s') projection, lg'))
                | (Throw t, s', lg') \<Rightarrow> (Throw t, Projection (Some s') projection, lg')))
      | _ \<Rightarrow> (Err InvalidProjection, Projection src projection, lg))"
  by pat_completeness auto

text \<open>
  Every loop ends: a pull that delivers an item lowers \<open>pending\<close> of the stage pulled
  from, and a drained buffer is no longer than \<open>pending\<close> of the drained stage. Both are
  shown on the domain of the functions first.
\<close>

lemma length_insort_by [simp]: "length (insort_by c x xs) = Suc (length xs)"
  by (induction xs) auto

lemma length_Array_sort [simp]: "length (Array_sort c xs) = length xs"
  by (induction xs) (auto simp: Array_sort_def)

lemma bound_trans:
  fixes m1 m :: nat
  assumes "\<forall>r s' lg'. f = (r, s', lg') \<longrightarrow> g s' \<le> m1 \<and> (\<forall>x. r = Item x \<longrightarrow> g s' < m1)"
    and "m1 < m"
  shows "\<forall>r s' lg'. f = (r, s', lg') \<longrightarrow> g s' \<le> m \<and> (\<forall>x. r = Item x \<longrightarrow> g s' < m)"
proof (intro allI impI)
  fix r s' lg'
  assume "f = (r, s', lg')"
  with assms(1) have "g s' \<le> m1" by blast
  with assms(2) show "g s' \<le> m \<and> (\<forall>x. r = Item x \<longrightarrow> g s' < m)" by auto
qed

lemma pending_partial:
  shows "nextObject_Condition_next_Offset_iterator_toArray_iterator_toArray_dom
           (Inl (Inl (s :: ('e, 'k, 'a) stage, lg))) \<Longrightarrow>
         (\<forall>r s' lg'. nextObject s lg = (r, s', lg') \<longrightarrow>
            pending s' \<le> pending s \<and> (\<forall>x. r = Item x \<longrightarrow> pending s' < pending s))"
    and "nextObject_Condition_next_Offset_iterator_toArray_iterator_toArray_dom
           (Inl (Inr (p, s1 :: ('e, 'k, 'a) stage, lg1))) \<Longrightarrow>
         (\<forall>r s' lg'. Condition_next p s1 lg1 = (r, s', lg') \<longrightarrow>
            pending s' \<le> pending s1 \<and> (\<forall>x. r = Item x \<longrightarrow> pending s' < pending s1))"
    and "nextObject_Condition_next_Offset_iterator_toArray_iterator_toArray_dom
           (Inr (Inl (s2 :: ('e, 'k, 'a) stage, rest, lg2))) \<Longrightarrow>
         (\<forall>r s' rdy lg'. Offset_iterator s2 rest lg2 = (r, s', rdy, lg') \<longrightarrow>
            pending s' \<le> pending s2 \<and> (\<forall>x. r = Item x \<longrightarrow> pending s' < pending s2))"
    and "nextObject_Condition_next_Offset_iterator_toArray_iterator_toArray_dom
           (Inr (Inr (Inl (s3 :: ('e, 'k, 'a) stage, buf, lg3)))) \<Longrightarrow>
         (\<forall>r s' lg'. toArray_iterator s3 buf lg3 = (r, s', lg') \<longrightarrow>
            pending s' \<le> pending s3 \<and>
            (\<forall>xs. r = Success xs \<longrightarrow> length xs \<le> length buf + pending s3))"
    and "nextObject_Condition_next_Offset_iterator_toArray_iterator_toArray_dom
           (Inr (Inr (Inr (src :: ('e, 'k, 'a) stage option, lg4)))) \<Longrightarrow>
         (\<forall>r s' lg'. toArray src lg4 = (r, s', lg') \<longrightarrow>
            pending_opt s' \<le> pending_opt src \<and>
            (\<forall>xs. r = Success xs \<longrightarrow> length xs \<le> pending_opt src))"
proof (induct s lg and p s1 lg1 and s2 rest lg2 and s3 buf lg3 and src lg4
    rule: nextObject_Condition_next_Offset_iterator_toArray_iterator_toArray.pinduct)
  case (1 coll lg)
  then show ?case
    by (auto simp: nextObject.psimps split: sum.splits)
next
  case (2 coll lg)
  then show ?case by (simp add: nextObject.psimps)
next
  case (3 coll k ks lg)
  then show ?case by (auto simp: nextObject.psimps split: sum.splits option.splits)
next
  case (4 src cond lg)
  then show ?case
    by (auto simp: nextObject.psimps split: parsed.splits option.splits prod.splits)
next
  case (5 p s lg)
  obtain r1 s1 lg1 where n: "nextObject s lg = (r1, s1, lg1)"
    by (cases "nextObject s lg") auto
  have le: "pending s1 \<le> pending s" and lt: "\<And>x. r1 = Item x \<Longrightarrow> pending s1 < pending s"
    using "5.hyps"(2) n by auto
  show ?case
  proof (cases "\<exists>x. r1 = Item x \<and> \<not> p x")
    case True
    then obtain x where x: "r1 = Item x" "\<not> p x" by blast
    have ih: "\<forall>r s' lg'. Condition_next p s1 lg1 = (r, s', lg') \<longrightarrow>
              pending s' \<le> pending s1 \<and> (\<forall>x. r = Item x \<longrightarrow> pending s' < pending s1)"
      using "5.hyps"(3)[of r1 "(s1, lg1)" x s1 lg1] n x by simp
    have "Condition_next p s lg = Condition_next p s1 lg1"
      using "5.hyps"(1) n x by (simp add: Condition_next.psimps)
    with bound_trans[OF ih lt[OF x(1)]] show ?thesis by simp
  next
    case False
    then have "Condition_next p s lg = (r1, s1, lg1)"
      using "5.hyps"(1) n by (cases r1) (auto simp: Condition_next.psimps)
    with le lt show ?thesis by auto
  qed
next
  case (6 src sorter lg)
  then show ?case by (simp add: nextObject.psimps)
next
  case (7 src sorter x xs lg)
  then show ?case by (simp add: nextObject.psimps)
next
  case (8 src sorter lg)
  obtain r1 src1 lg1 where t: "toArray src lg = (r1, src1, lg1)"
    by (cases "toArray src lg") auto
  have len: "\<And>xs. r1 = Success xs \<Longrightarrow> length xs \<le> pending_opt src"
    and le: "pending_opt src1 \<le> pending_opt src"
    using "8.hyps"(2) t by auto
  have top1: "pending (Sort src1 sorter None) = Suc (pending_opt src1)"
    by (cases src1) auto
  have top: "pending (Sort src sorter None) = Suc (pending_opt src)"
    by (cases src) auto
  show ?case
  proof (cases r1)
    case (Success buf)
    have ih: "\<forall>r s' lg'.
        nextObject (Sort src1 sorter (Some (Array_sort sorter buf))) lg1 = (r, s', lg') \<longrightarrow>
        pending s' \<le> pending (Sort src1 sorter (Some (Array_sort sorter buf))) \<and>
        (\<forall>x. r = Item x \<longrightarrow>
           pending s' < pending (Sort src1 sorter (Some (Array_sort sorter buf))))"
      using "8.hyps"(3)[of r1 "(src1, lg1)" buf src1 lg1] t Success by simp
    have "nextObject (Sort src sorter None) lg =
          nextObject (Sort src1 sorter (Some (Array_sort sorter buf))) lg1"
      using "8.hyps"(1) t Success by (simp add: nextObject.psimps)
    moreover have "length (Array_sort sorter buf) < pending (Sort src sorter None)"
      using len[OF Success] top by simp
    ultimately show ?thesis
      using bound_trans[OF ih, of "pending (Sort src sorter None)"] by simp
  next
    case (Failure e)
    then show ?thesis using "8.hyps"(1) t le top top1 by (simp add: nextObject.psimps)
  next
    case (Raised e)
    then show ?thesis using "8.hyps"(1) t le top top1 by (simp add: nextObject.psimps)
  qed
next
  case (9 lg)
  then show ?case by (simp add: toArray.psimps)
next
  case (10 s lg)
  then show ?case by (auto simp: toArray.psimps split: prod.splits)
next
  case (11 s buf lg)
  obtain r1 s1 lg1 where n: "nextObject s lg = (r1, s1, lg1)"
    by (cases "nextObject s lg") auto
  have le: "pending s1 \<le> pending s" and lt: "\<And>x. r1 = Item x \<Longrightarrow> pending s1 < pending s"
    using "11.hyps"(2) n by auto
  show ?case
  proof (cases r1)
    case (Item x)
    have ih: "\<forall>r s' lg'. toArray_iterator s1 (buf @ [x]) lg1 = (r, s', lg') \<longrightarrow>
              pending s' \<le> pending s1 \<and>
              (\<forall>xs. r = Success xs \<longrightarrow> length xs \<le> length (buf @ [x]) + pending s1)"
      using "11.hyps"(3)[of r1 "(s1, lg1)" x s1 lg1] n Item by simp
    have eq: "toArray_iterator s buf lg = toArray_iterator s1 (buf @ [x]) lg1"
      using "11.hyps"(1) n Item by (simp add: toArray_iterator.psimps)
    show ?thesis
    proof (intro allI impI)
      fix r s' lg'
      assume "toArray_iterator s buf lg = (r, s', lg')"
      then have "toArray_iterator s1 (buf @ [x]) lg1 = (r, s', lg')" using eq by simp
      with ih have "pending s' \<le> pending s1 \<and>
        (\<forall>xs. r = Success xs \<longrightarrow> length xs \<le> length (buf @ [x]) + pending s1)" by blast
      with lt[OF Item] show "pending s' \<le> pending s \<and>
          (\<forall>xs. r = Success xs \<longrightarrow> length xs \<le> length buf + pending s)" by auto
    qed
  qed (use "11.hyps"(1) n le in \<open>auto simp: toArray_iterator.psimps\<close>)
next
  case (12 src offset ready lg)
  then show ?case
    by (auto simp: nextObject.psimps split: option.splits prod.splits)
next
  case (13 s rest lg)
  obtain r1 s1 lg1 where n: "nextObject s lg = (r1, s1, lg1)"
    by (cases "nextObject s lg") auto
  have le: "pending s1 \<le> pending s" and lt: "\<And>x. r1 = Item x \<Longrightarrow> pending s1 < pending s"
    using "13.hyps"(2) n by auto
  show ?case
  proof (cases r1)
    case (Item x)
    show ?thesis
    proof (cases "0 < rest - 1")
      case True
      have ih: "\<forall>r s' rdy lg'. Offset_iterator s1 (rest - 1) lg1 = (r, s', rdy, lg') \<longrightarrow>
                pending s' \<le> pending s1 \<and> (\<forall>x. r = Item x \<longrightarrow> pending s' < pending s1)"
        using "13.hyps"(3)[of r1 "(s1, lg1)" x s1 lg1] n Item True by simp
      have eq: "Offset_iterator s rest lg = Offset_iterator s1 (rest - 1) lg1"
        using "13.hyps"(1) n Item True by (simp add: Offset_iterator.psimps)
      show ?thesis
      proof (intro allI impI)
        fix r s' rdy lg'
        assume "Offset_iterator s rest lg = (r, s', rdy, lg')"
        then have "Offset_iterator s1 (rest - 1) lg1 = (r, s', rdy, lg')" using eq by simp
        with ih have "pending s' \<le> pending s1" by blast
        with lt[OF Item]
        show "pending s' \<le> pending s \<and> (\<forall>x. r = Item x \<longrightarrow> pending s' < pending s)"
          by auto
      qed
    next
      case False
      have ih: "\<forall>r s' lg'. nextObject s1 lg1 = (r, s', lg') \<longrightarrow>
                pending s' \<le> pending s1 \<and> (\<forall>x. r = Item x \<longrightarrow> pending s' < pending s1)"
        using "13.hyps"(4)[of r1 "(s1, lg1)" x s1 lg1] n Item False by simp
      have eq: "Offset_iterator s rest lg =
            (case nextObject s1 lg1 of (r, s'', lg'') \<Rightarrow> (r, s'', True, lg''))"
        using "13.hyps"(1) n Item False by (simp add: Offset_iterator.psimps)
      show ?thesis
      proof (intro allI impI)
        fix r s' rdy lg'
        assume "Offset_iterator s rest lg = (r, s', rdy, lg')"
        with eq have "\<exists>lg''. nextObject s1 lg1 = (r, s', lg'')" by (auto split: prod.splits)
        with ih have "pending s' \<le> pending s1" by blast
        with lt[OF Item]
        show "pending s' \<le> pending s \<and> (\<forall>x. r = Item x \<longrightarrow> pending s' < pending s)"
          by auto
      qed
    qed
  qed (use "13.hyps"(1) n le in \<open>auto simp: Offset_iterator.psimps\<close>)
next
  case (14 src limit rest lg)
  then show ?case
    by (auto simp: nextObject.psimps split: option.splits prod.splits)
next
  case (15 src projection lg)
  then show ?case
    by (auto simp: nextObject.psimps
        split: parsed.splits option.splits prod.splits outcome.splits)
qed

lemma pending_after_Item:
  assumes "nextObject_Condition_next_Offset_iterator_toArray_iterator_toArray_dom
             (Inl (Inl (s, lg)))"
    and "(Item x, s', lg') = nextObject s lg"
  shows "pending s' < pending s"
  using pending_partial(1)[OF assms(1)] assms(2)[symmetric] by blast

lemma length_after_toArray:
  assumes "nextObject_Condition_next_Offset_iterator_toArray_iterator_toArray_dom
             (Inr (Inr (Inr (src, lg))))"
    and "(Success xs, src', lg') = toArray src lg"
  shows "length xs < pending (Sort src sorter None)"
proof -
  have "length xs \<le> pending_opt src"
    using pending_partial(5)[OF assms(1)] assms(2)[symmetric] by blast
  then show ?thesis by (cases src) auto
qed

termination nextObject
proof (relation "inv_image (less_than <*lex*> less_than) call_rank", goal_cases)
  case 1
  show ?case by (intro wf_inv_image wf_lex_prod wf_less_than)
qed (auto simp: call_rank_def split: option.splits
       dest: pending_after_Item length_after_toArray)

declare Condition_next.simps [simp del]
declare Offset_iterator.simps [simp del]
declare toArray_iterator.simps [simp del]
declare toArray.simps [simp del]

subsection \<open>rewind of every stage\<close>

text \<open>
  \<^verbatim>\<open>Source.prototype.rewind\<close> deletes the list. \<^verbatim>\<open>Condition\<close> and \<^verbatim>\<open>Projection\<close> inherit
  \<^verbatim>\<open>Proto.prototype.rewind\<close>, which throws 'no source' without an upstream and rewinds it
  otherwise; \<^verbatim>\<open>Offset\<close> and \<^verbatim>\<open>Limit\<close> reset their own field and call it.
  \<^verbatim>\<open>Sort.prototype.rewind\<close> deletes the buffer and reads \<^verbatim>\<open>this.source.rewind\<close>
  unguarded. The result is the exception thrown, if any, and the stage as it was left.
\<close>

fun rewind :: "('e, 'k, 'a) stage \<Rightarrow> exn option \<times> ('e, 'k, 'a) stage" where
  "rewind (Source coll l) = (None, Source coll None)"
| "rewind (Condition None cond) = (Some NoSource, Condition None cond)"
| "rewind (Condition (Some s) cond) =
     (case rewind s of (t, s') \<Rightarrow> (t, Condition (Some s') cond))"
| "rewind (Projection None projection) = (Some NoSource, Projection None projection)"
| "rewind (Projection (Some s) projection) =
     (case rewind s of (t, s') \<Rightarrow> (t, Projection (Some s') projection))"
| "rewind (Sort None sorter l) = (Some TypeError, Sort None sorter None)"
| "rewind (Sort (Some s) sorter l) =
     (case rewind s of (t, s') \<Rightarrow> (t, Sort (Some s') sorter None))"
| "rewind (Offset None offset ready) = (Some NoSource, Offset None offset False)"
| "rewind (Offset (Some s) offset ready) =
     (case rewind s of (t, s') \<Rightarrow> (t, Offset (Some s') offset False))"
| "rewind (Limit None limit rest) = (Some NoSource, Limit None limit limit)"
| "rewind (Limit (Some s) limit rest) =
     (case rewind s of (t, s') \<Rightarrow> (t, Limit (Some s') limit limit))"

subsection \<open>Arrays handed to callers\<close>

text \<open>
  The cursor keeps references to arrays and hands arrays to its callers, who may change
  them. Arrays therefore live in a store: \<open>cells h a\<close> is the content of the array at
  address \<open>a\<close>, and \<open>top h\<close> is the next free address. \<open>alloc\<close> creates an array;
  \<open>clone h a\<close> is \<^verbatim>\<open>[].concat(array)\<close>, a new array with the same elements. The world
  threaded through the cursor methods holds the storage calls made so far and the stores
  of id arrays and item arrays.
\<close>

record 'x heap =
  cells :: "nat \<Rightarrow> 'x list"
  top :: nat

definition alloc :: "'x heap \<Rightarrow> 'x list \<Rightarrow> nat \<times> 'x heap" where
  "alloc h xs = (top h, \<lparr>cells = (cells h)(top h := xs), top = Suc (top h)\<rparr>)"

definition clone :: "'x heap \<Rightarrow> nat \<Rightarrow> nat \<times> 'x heap" where
  "clone h a = alloc h (cells h a)"

record ('k, 'a) world =
  calls :: "'k call list"
  id_arrays :: "'k heap"
  item_arrays :: "'a heap"

subsection \<open>The cursor\<close>

text \<open>
  \<open>source\<close> is \<^verbatim>\<open>this.source\<close>, the head of the chain; \<open>memo_index\<close> and
  \<open>memo_toArray\<close> are \<^verbatim>\<open>this._index\<close> and \<^verbatim>\<open>this._toArray\<close>, references to the
  memoized arrays (an array is truthy even when empty, so a set field is always taken).
  \<^verbatim>\<open>this._source\<close> is only ever compared with \<^verbatim>\<open>this.source\<close> by identity. The Source
  object is created once, in the constructor, and wrapping creates new objects, so the two
  are identical exactly when the head is a Source stage: \<open>is_first_Source\<close>.
\<close>

record ('e, 'k, 'a) cursor =
  collection :: "('e, 'k, 'a) collection"
  source :: "('e, 'k, 'a) stage option"
  memo_index :: "nat option"
  memo_toArray :: "nat option"

definition Cursor ::
  "('e, 'k, 'a) collection \<Rightarrow> ('a \<Rightarrow> bool) parsed \<Rightarrow> ('a \<Rightarrow> 'a option) parsed \<Rightarrow>
   ('e, 'k, 'a) cursor" where
  "Cursor coll condition projection =
     (let s0 = Source coll None;
          s1 = (case condition of Absent \<Rightarrow> s0 | _ \<Rightarrow> Condition (Some s0) condition);
          s2 = (case projection of Absent \<Rightarrow> s1 | _ \<Rightarrow> Projection (Some s1) projection)
      in \<lparr>collection = coll, source = Some s2, memo_index = None, memo_toArray = None\<rparr>)"

text \<open>\<^verbatim>\<open>find(condition, projection)\<close> of mixin/find.js.\<close>

definition find ::
  "('e, 'k, 'a) collection \<Rightarrow> ('a \<Rightarrow> bool) parsed \<Rightarrow> ('a \<Rightarrow> 'a option) parsed \<Rightarrow>
   ('e, 'k, 'a) cursor" where
  "find coll condition projection = Cursor coll condition projection"

text \<open>\<^verbatim>\<open>Proto.prototype.nextObject\<close> and \<^verbatim>\<open>Proto.prototype.rewind\<close> on the cursor.\<close>

definition Cursor_nextObject ::
  "('e, 'k, 'a) cursor \<Rightarrow> ('k, 'a) world \<Rightarrow>
   ('e, 'a) outcome \<times> ('e, 'k, 'a) cursor \<times> ('k, 'a) world" where
  "Cursor_nextObject c w =
     (case source c of
        None \<Rightarrow> (Throw NoSource, c, w)
      | Some s \<Rightarrow>
          (case nextObject s (calls w) of
             (r, s', lg') \<Rightarrow> (r, c\<lparr>source := Some s'\<rparr>, w\<lparr>calls := lg'\<rparr>)))"

definition Cursor_rewind :: "('e, 'k, 'a) cursor \<Rightarrow> exn option \<times> ('e, 'k, 'a) cursor" where
  "Cursor_rewind c =
     (case source c of
        None \<Rightarrow> (Some NoSource, c)
      | Some s \<Rightarrow> (case rewind s of (t, s') \<Rightarrow> (t, c\<lparr>source := Some s'\<rparr>)))"

text \<open>
  \<^verbatim>\<open>Cursor.prototype.index\<close>, \<^verbatim>\<open>toArray\<close> and \<^verbatim>\<open>count\<close>. A successful reply carries the
  address of the array passed to the callback (for \<open>Cursor_count\<close>, the number).
\<close>

definition Cursor_index ::
  "('e, 'k, 'a) cursor \<Rightarrow> ('k, 'a) world \<Rightarrow>
   ('e, nat) reply \<times> ('e, 'k, 'a) cursor \<times> ('k, 'a) world" where
  "Cursor_index c w =
     (case memo_index c of
        Some a \<Rightarrow>
          (case clone (id_arrays w) a of
             (b, h) \<Rightarrow> (Success b, c, w\<lparr>id_arrays := h\<rparr>))
      | None \<Rightarrow>
          (case index (collection c) of
             Inl e \<Rightarrow> (Failure (Backend e), c, w\<lparr>calls := calls w @ [Index]\<rparr>)
           | Inr ks \<Rightarrow>
               (case alloc (id_arrays w) ks of
                  (a, h1) \<Rightarrow>
                    (case clone h1 a of
                       (b, h2) \<Rightarrow>
                         (Success b, c\<lparr>memo_index := Some a\<rparr>,
                          w\<lparr>calls := calls w @ [Index], id_arrays := h2\<rparr>)))))"

definition Cursor_toArray ::
  "('e, 'k, 'a) cursor \<Rightarrow> ('k, 'a) world \<Rightarrow>
   ('e, nat) reply \<times> ('e, 'k, 'a) cursor \<times> ('k, 'a) world" where
  "Cursor_toArray c w =
     (case memo_toArray c of
        Some a \<Rightarrow>
          (case clone (item_arrays w) a of
             (b, h) \<Rightarrow> (Success b, c, w\<lparr>item_arrays := h\<rparr>))
      | None \<Rightarrow>
          (case toArray (source c) (calls w) of
             (Failure e, src', lg') \<Rightarrow> (Failure e, c\<lparr>source := src'\<rparr>, w\<lparr>calls := lg'\<rparr>)
           | (Success buf, src', lg') \<Rightarrow>
               (case alloc (item_arrays w) buf of
                  (a, h1) \<Rightarrow>
                    (case clone h1 a of
                       (b, h2) \<Rightarrow>
                         (Success b, c\<lparr>source := src', memo_toArray := Some a\<rparr>,
                          w\<lparr>calls := lg', item_arrays := h2\<rparr>)))
           | (Raised t, src', lg') \<Rightarrow> (Raised t, c\<lparr>source := src'\<rparr>, w\<lparr>calls := lg'\<rparr>)))"

fun is_first_Source :: "('e, 'k, 'a) stage option \<Rightarrow> bool" where
  "is_first_Source (Some (Source coll l)) = True"
| "is_first_Source other = False"

definition Cursor_count ::
  "('e, 'k, 'a) cursor \<Rightarrow> ('k, 'a) world \<Rightarrow>
   ('e, nat) reply \<times> ('e, 'k, 'a) cursor \<times> ('k, 'a) world" where
  "Cursor_count c w =
     (if is_first_Source (source c)
      then (case Cursor_index c w of
              (Failure e, c', w') \<Rightarrow> (Failure e, c', w')
            | (Success a, c', w') \<Rightarrow> (Success (length (cells (id_arrays w') a)), c', w')
            | (Raised t, c', w') \<Rightarrow> (Raised t, c', w'))
      else (case Cursor_toArray c w of
              (Failure e, c', w') \<Rightarrow> (Failure e, c', w')
            | (Success a, c', w') \<Rightarrow> (Success (length (cells (item_arrays w') a)), c', w')
            | (Raised t, c', w') \<Rightarrow> (Raised t, c', w')))"

text \<open>
  \<^verbatim>\<open>sort\<close>, \<^verbatim>\<open>offset\<close> and \<^verbatim>\<open>limit\<close> wrap the head. \<^verbatim>\<open>SortOp.parser\<close> is not part of
  the modelled sources: \<open>Cursor_sort\<close> takes the comparator it returns.
\<close>

definition Cursor_sort ::
  "('e, 'k, 'a) cursor \<Rightarrow> ('a \<Rightarrow> 'a \<Rightarrow> int) \<Rightarrow> ('e, 'k, 'a) cursor" where
  "Cursor_sort c order = c\<lparr>source := Some (Sort (source c) order None)\<rparr>"

definition Cursor_offset :: "('e, 'k, 'a) cursor \<Rightarrow> int \<Rightarrow> ('e, 'k, 'a) cursor" where
  "Cursor_offset c offset = c\<lparr>source := Some (Offset (source c) offset False)\<rparr>"

definition Cursor_limit :: "('e, 'k, 'a) cursor \<Rightarrow> int \<Rightarrow> ('e, 'k, 'a) cursor" where
  "Cursor_limit c limit = c\<lparr>source := Some (Limit (source c) limit limit)\<rparr>"

subsection \<open>Vocabulary of the properties\<close>

text \<open>
  \<open>stores coll ks xs\<close>: the collection is a backing set of the items \<open>xs\<close> under the ids
  \<open>ks\<close>: \<^verbatim>\<open>index\<close> lists \<open>ks\<close>, and reading the ids in that order yields the items
  \<open>xs\<close>. \<open>xs\<close> is the full unfiltered ordering.
\<close>

definition stores :: "('e, 'k, 'a) collection \<Rightarrow> 'k list \<Rightarrow> 'a list \<Rightarrow> bool" where
  "stores coll ks xs \<longleftrightarrow>
     index coll = Inr ks \<and> map (read coll) ks = map (\<lambda>x. Inr (Some x)) xs"

text \<open>
  \<open>items_of\<close> reads what the callback of \<^verbatim>\<open>toArray\<close> received, with the array
  looked up in the store the call left behind.
\<close>

definition items_of ::
  "('e, nat) reply \<times> ('e, 'k, 'a) cursor \<times> ('k, 'a) world \<Rightarrow> ('e, 'a list) reply" where
  "items_of res =
     (case res of
        (Failure e, c, w) \<Rightarrow> Failure e
      | (Success a, c, w) \<Rightarrow> Success (cells (item_arrays w) a)
      | (Raised t, c, w) \<Rightarrow> Raised t)"

text \<open>\<open>pulls n s lg\<close>: a caller makes \<open>n\<close> \<^verbatim>\<open>nextObject\<close> calls in a row.\<close>

fun pulls :: "nat \<Rightarrow> ('e, 'k, 'a) stage \<Rightarrow> 'k call list \<Rightarrow>
    ('e, 'a) outcome list \<times> ('e, 'k, 'a) stage \<times> 'k call list" where
  "pulls 0 s lg = ([], s, lg)"
| "pulls (Suc n) s lg =
     (case nextObject s lg of
        (r, s', lg') \<Rightarrow> (case pulls n s' lg' of (rs, s'', lg'') \<Rightarrow> (r # rs, s'', lg'')))"

text \<open>\<open>served rs\<close>: the items among the results of a run of calls.\<close>

fun served :: "('e, 'a) outcome list \<Rightarrow> 'a list" where
  "served [] = []"
| "served (Item x # rs) = x # served rs"
| "served (r # rs) = served rs"

text \<open>
  \<open>ids_of\<close> does for \<^verbatim>\<open>index\<close> what \<open>items_of\<close> does for \<^verbatim>\<open>toArray\<close>.
\<close>

definition ids_of ::
  "('e, nat) reply \<times> ('e, 'k, 'a) cursor \<times> ('k, 'a) world \<Rightarrow> ('e, 'k list) reply" where
  "ids_of res =
     (case res of
        (Failure e, c, w) \<Rightarrow> Failure e
      | (Success a, c, w) \<Rightarrow> Success (cells (id_arrays w) a)
      | (Raised t, c, w) \<Rightarrow> Raised t)"

text \<open>
  \<open>linked s\<close>: every decorating stage of the chain \<open>s\<close> has an upstream.
\<close>

fun linked :: "('e, 'k, 'a) stage \<Rightarrow> bool" where
  "linked (Source coll l) = True"
| "linked (Condition None cond) = False"
| "linked (Condition (Some s) cond) = linked s"
| "linked (Projection None projection) = False"
| "linked (Projection (Some s) projection) = linked s"
| "linked (Sort None sorter l) = False"
| "linked (Sort (Some s) sorter l) = linked s"
| "linked (Offset None offset ready) = False"
| "linked (Offset (Some s) offset ready) = linked s"
| "linked (Limit None limit rest) = False"
| "linked (Limit (Some s) limit rest) = linked s"

fun linked_opt :: "('e, 'k, 'a) stage option \<Rightarrow> bool" where
  "linked_opt None = False"
| "linked_opt (Some s) = linked s"

text \<open>
  \<open>used c\<close>: \<open>c\<close> is a cursor a program can hold: it was made by \<^verbatim>\<open>find\<close>, and then
  any of its methods were called on it, any number of times, with any arguments, in any
  world.
\<close>

inductive used :: "('e, 'k, 'a) cursor \<Rightarrow> bool" where
  created: "used (find coll condition projection)"
| after_sort: "used c \<Longrightarrow> used (Cursor_sort c order)"
| after_offset: "used c \<Longrightarrow> used (Cursor_offset c offset)"
| after_limit: "used c \<Longrightarrow> used (Cursor_limit c limit)"
| after_rewind: "used c \<Longrightarrow> used (snd (Cursor_rewind c))"
| after_nextObject: "used c \<Longrightarrow> used (fst (snd (Cursor_nextObject c w)))"
| after_toArray: "used c \<Longrightarrow> used (fst (snd (Cursor_toArray c w)))"
| after_count: "used c \<Longrightarrow> used (fst (snd (Cursor_count c w)))"
| after_index: "used c \<Longrightarrow> used (fst (snd (Cursor_index c w)))"

code_pred used .

text \<open>
  \<open>later_on c c'\<close>: \<open>c'\<close> is the cursor \<open>c\<close> at a later moment, after any number of
  calls of its methods, with any arguments, in any world.
\<close>

inductive later_on :: "('e, 'k, 'a) cursor \<Rightarrow> ('e, 'k, 'a) cursor \<Rightarrow> bool" where
  at_once: "later_on c c"
| sort_called: "later_on c c' \<Longrightarrow> later_on c (Cursor_sort c' order)"
| offset_called: "later_on c c' \<Longrightarrow> later_on c (Cursor_offset c' offset)"
| limit_called: "later_on c c' \<Longrightarrow> later_on c (Cursor_limit c' limit)"
| rewind_called: "later_on c c' \<Longrightarrow> later_on c (snd (Cursor_rewind c'))"
| nextObject_called: "later_on c c' \<Longrightarrow> later_on c (fst (snd (Cursor_nextObject c' w)))"
| toArray_called: "later_on c c' \<Longrightarrow> later_on c (fst (snd (Cursor_toArray c' w)))"
| count_called: "later_on c c' \<Longrightarrow> later_on c (fst (snd (Cursor_count c' w)))"
| index_called: "later_on c c' \<Longrightarrow> later_on c (fst (snd (Cursor_index c' w)))"

code_pred later_on .

text \<open>
  \<open>root s\<close>: the collection that the Source at the bottom of the chain \<open>s\<close> reads,
  if the chain reaches a Source.
\<close>

fun root :: "('e, 'k, 'a) stage \<Rightarrow> ('e, 'k, 'a) collection option" where
  "root (Source coll l) = Some coll"
| "root (Condition None cond) = None"
| "root (Condition (Some s) cond) = root s"
| "root (Projection None projection) = None"
| "root (Projection (Some s) projection) = root s"
| "root (Sort None sorter l) = None"
| "root (Sort (Some s) sorter l) = root s"
| "root (Offset None offset ready) = None"
| "root (Offset (Some s) offset ready) = root s"
| "root (Limit None limit rest) = None"
| "root (Limit (Some s) limit rest) = root s"

fun root_opt :: "('e, 'k, 'a) stage option \<Rightarrow> ('e, 'k, 'a) collection option" where
  "root_opt None = None"
| "root_opt (Some s) = root s"



text \<open>
  \<open>invalid_ahead s\<close>: the error of the Condition or Projection stage without a callable
  specification that a \<^verbatim>\<open>nextObject\<close> call on the chain \<open>s\<close> reaches, if it reaches
  one: the stages above it pull their upstream first thing (a Sort stage with an empty
  buffer, an Offset stage, a Limit stage that is not spent, a Condition or Projection stage
  with a function).
\<close>

fun invalid_ahead :: "('e, 'k, 'a) stage \<Rightarrow> 'e error option" where
  "invalid_ahead (Source coll l) = None"
| "invalid_ahead (Condition src Absent) = Some InvalidCondition"
| "invalid_ahead (Condition src NotCallable) = Some InvalidCondition"
| "invalid_ahead (Condition None (Callable p)) = None"
| "invalid_ahead (Condition (Some s) (Callable p)) = invalid_ahead s"
| "invalid_ahead (Projection src Absent) = Some InvalidProjection"
| "invalid_ahead (Projection src NotCallable) = Some InvalidProjection"
| "invalid_ahead (Projection None (Callable f)) = None"
| "invalid_ahead (Projection (Some s) (Callable f)) = invalid_ahead s"
| "invalid_ahead (Sort src sorter (Some buf)) = None"
| "invalid_ahead (Sort None sorter None) = None"
| "invalid_ahead (Sort (Some s) sorter None) = invalid_ahead s"
| "invalid_ahead (Offset None offset ready) = None"
| "invalid_ahead (Offset (Some s) offset ready) = invalid_ahead s"
| "invalid_ahead (Limit None limit rest) = None"
| "invalid_ahead (Limit (Some s) limit rest) = (if rest > 0 then invalid_ahead s else None)"

subsection \<open>The comparator of an object-form sort specification\<close>

text \<open>
  Modelled from the spec: the directions of a Sort object, 1 (ascending) and -1
  (descending); op/sort_op is not among the sources.
\<close>

datatype direction = Ascending | Descending

text \<open>
  Modelled from the spec: \<^verbatim>\<open>SortOp.parser\<close> (op/sort_op) is not among the sources. The
  specification says of it: a Sort object is a map from field to direction, and the keys
  are taken in the object's own declared order, which establishes the tie-break
  precedence; ascending means the natural ordering of the field's values (lexicographic
  for strings, numeric for numbers), descending reverses the comparison result; later keys
  are compared when earlier keys tie. The comparator returns a negative number, zero or a
  positive number. An item is a map from field to value, and the values are taken from one
  linear order.
\<close>

fun SortOp_parser :: "('f \<times> direction) list \<Rightarrow> ('f \<Rightarrow> 'v::linorder) \<Rightarrow> ('f \<Rightarrow> 'v) \<Rightarrow> int" where
  "SortOp_parser [] a b = 0"
| "SortOp_parser ((field, dir) # rest) a b =
     (if a field < b field then (case dir of Ascending \<Rightarrow> - 1 | Descending \<Rightarrow> 1)
      else if b field < a field then (case dir of Ascending \<Rightarrow> 1 | Descending \<Rightarrow> - 1)
      else SortOp_parser rest a b)"

subsection \<open>Test data\<close>

text \<open>
  The collection of the cursor tests (ids foo, bar, baz, qux), each item reduced to its
  \<^verbatim>\<open>decimal\<close> field, and a world in which nothing has happened yet.
\<close>

definition demo :: "(string, string, int) collection" where
  "demo = \<lparr>index = Inr [''foo'', ''bar'', ''baz'', ''qux''],
           read = (\<lambda>k. if k = ''foo'' then Inr (Some 123)
                        else if k = ''bar'' then Inr (Some 111)
                        else if k = ''baz'' then Inr (Some 999)
                        else if k = ''qux'' then Inr (Some 123)
                        else Inl ''not found'')\<rparr>"

definition world0 :: "('k, 'a) world" where
  "world0 = \<lparr>calls = [], id_arrays = \<lparr>cells = (\<lambda>a. []), top = 0\<rparr>,
             item_arrays = \<lparr>cells = (\<lambda>a. []), top = 0\<rparr>\<rparr>"


text \<open>
  The test items with their \<^verbatim>\<open>decimal\<close> field and their \<^verbatim>\<open>numeric\<close> field (in
  hundredths), as maps from field to value, and the collection that holds them.
\<close>

definition foo_item :: "string \<Rightarrow> int" where
  "foo_item f = (if f = ''decimal'' then 123 else if f = ''numeric'' then 4567 else 0)"

definition bar_item :: "string \<Rightarrow> int" where
  "bar_item f = (if f = ''decimal'' then 111 else if f = ''numeric'' then 4567 else 0)"

definition baz_item :: "string \<Rightarrow> int" where
  "baz_item f = (if f = ''decimal'' then 999 else if f = ''numeric'' then 1111 else 0)"

definition qux_item :: "string \<Rightarrow> int" where
  "qux_item f = (if f = ''decimal'' then 123 else if f = ''numeric'' then 4567 else 0)"

definition catalog :: "(string, string, string \<Rightarrow> int) collection" where
  "catalog = \<lparr>index = Inr [''foo'', ''bar'', ''baz'', ''qux''],
              read = (\<lambda>k. if k = ''foo'' then Inr (Some foo_item)
                           else if k = ''bar'' then Inr (Some bar_item)
                           else if k = ''baz'' then Inr (Some baz_item)
                           else if k = ''qux'' then Inr (Some qux_item)
                           else Inl ''not found'')\<rparr>"

text \<open>
  \<open>listed_once\<close>: \<^verbatim>\<open>find().toArray()\<close> on the test collection. \<open>restructured_cursor\<close>:
  that cursor after \<^verbatim>\<open>rewind()\<close> and \<^verbatim>\<open>limit(1)\<close>. \<open>scribbled\<close>: the world after
  the caller emptied the array that the first \<^verbatim>\<open>toArray\<close> handed out.
\<close>

definition listed_once ::
  "(string, nat) reply \<times> (string, string, int) cursor \<times> (string, int) world" where
  "listed_once = Cursor_toArray (find demo Absent Absent) world0"

definition restructured_cursor :: "(string, string, int) cursor" where
  "restructured_cursor =
     Cursor_limit (snd (Cursor_rewind (fst (snd listed_once)))) 1"

definition scribbled :: "(string, int) world" where
  "scribbled = (snd (snd listed_once))
     \<lparr>item_arrays := (item_arrays (snd (snd listed_once)))
        \<lparr>cells := (cells (item_arrays (snd (snd listed_once))))(1 := [])\<rparr>\<rparr>"

section \<open>Draining the stages over a backing set\<close>

lemma fst_toArray_Some: "fst (toArray (Some s) lg) = fst (toArray_iterator s [] lg)"
  by (simp add: toArray.simps case_prod_beta)

lemma calls_toArray_Some:
  "snd (snd (toArray (Some s) lg)) = snd (snd (toArray_iterator s [] lg))"
  by (simp add: toArray.simps case_prod_beta)

lemma reads_Cons:
  "map (read coll) (k # ks) = map (\<lambda>x. Inr (Some x)) xs \<Longrightarrow>
   \<exists>x xs'. xs = x # xs' \<and> read coll k = Inr (Some x) \<and>
     map (read coll) ks = map (\<lambda>x. Inr (Some x)) xs'"
  by (cases xs) auto

lemma reads_length:
  "map (read coll) ks = map (\<lambda>x. Inr (Some x)) xs \<Longrightarrow> length xs = length ks"
  by (metis length_map)

lemma reads_drop:
  "map (read coll) ks = map (\<lambda>x. Inr (Some x)) xs \<Longrightarrow>
   map (read coll) (drop n ks) = map (\<lambda>x. Inr (Some x)) (drop n xs)"
  by (metis drop_map)

lemma toArray_iterator_same_pull:
  "nextObject s lg = nextObject s2 lg2 \<Longrightarrow>
   toArray_iterator s buf lg = toArray_iterator s2 buf lg2"
  by (simp add: toArray_iterator.simps[of s] toArray_iterator.simps[of s2])

lemma toArray_iterator_Item:
  "nextObject s lg = (Item x, s', lg') \<Longrightarrow>
   toArray_iterator s buf lg = toArray_iterator s' (buf @ [x]) lg'"
  by (simp add: toArray_iterator.simps[of s])

lemma toArray_iterator_Eof:
  "nextObject s lg = (Eof, s', lg') \<Longrightarrow> toArray_iterator s buf lg = (Success buf, s', lg')"
  by (simp add: toArray_iterator.simps[of s])

lemma toArray_iterator_Err:
  "nextObject s lg = (Err e, s', lg') \<Longrightarrow> toArray_iterator s buf lg = (Failure e, s', lg')"
  by (simp add: toArray_iterator.simps[of s])

lemma toArray_iterator_Throw:
  "nextObject s lg = (Throw t, s', lg') \<Longrightarrow> toArray_iterator s buf lg = (Raised t, s', lg')"
  by (simp add: toArray_iterator.simps[of s])

lemma nextObject_Source_start:
  "index coll = Inr ks \<Longrightarrow>
   nextObject (Source coll None) lg = nextObject (Source coll (Some ks)) (lg @ [Index])"
  by simp

lemma toArray_iterator_Source:
  "map (read coll) ks = map (\<lambda>x. Inr (Some x)) xs \<Longrightarrow>
   toArray_iterator (Source coll (Some ks)) buf lg =
     (Success (buf @ xs), Source coll (Some []), lg @ map Read ks)"
proof (induction ks arbitrary: xs buf lg)
  case Nil
  then show ?case by (simp add: toArray_iterator.simps)
next
  case (Cons k ks)
  from reads_Cons[OF Cons.prems] obtain x xs' where
    x: "xs = x # xs'" "read coll k = Inr (Some x)"
       "map (read coll) ks = map (\<lambda>x. Inr (Some x)) xs'" by blast
  show ?case
    by (subst toArray_iterator.simps) (simp add: x Cons.IH[OF x(3)])
qed

subsection \<open>Draining a Condition stage\<close>

lemma Condition_pass:
  "nextObject s lg = (Item x, s', lg') \<Longrightarrow> p x \<Longrightarrow>
   nextObject (Condition (Some s) (Callable p)) lg = (Item x, Condition (Some s') (Callable p), lg')"
  by (simp add: Condition_next.simps[of p s])

lemma Condition_skip:
  "nextObject s lg = (Item x, s', lg') \<Longrightarrow> \<not> p x \<Longrightarrow>
   nextObject (Condition (Some s) (Callable p)) lg =
   nextObject (Condition (Some s') (Callable p)) lg'"
  by (simp add: Condition_next.simps[of p s])

lemma Condition_eof:
  "nextObject s lg = (Eof, s', lg') \<Longrightarrow>
   nextObject (Condition (Some s) (Callable p)) lg = (Eof, Condition (Some s') (Callable p), lg')"
  by (simp add: Condition_next.simps[of p s])

lemma Condition_err:
  "nextObject s lg = (Err e, s', lg') \<Longrightarrow>
   nextObject (Condition (Some s) (Callable p)) lg = (Err e, Condition (Some s') (Callable p), lg')"
  by (simp add: Condition_next.simps[of p s])

lemma Condition_same_pull:
  "nextObject s lg = nextObject s2 lg2 \<Longrightarrow>
   nextObject (Condition (Some s) (Callable p)) lg =
   nextObject (Condition (Some s2) (Callable p)) lg2"
  by (simp add: Condition_next.simps[of p s] Condition_next.simps[of p s2])

lemma toArray_iterator_Condition:
  "map (read coll) ks = map (\<lambda>x. Inr (Some x)) xs \<Longrightarrow>
   toArray_iterator (Condition (Some (Source coll (Some ks))) (Callable p)) buf lg =
     (Success (buf @ filter p xs), Condition (Some (Source coll (Some []))) (Callable p),
      lg @ map Read ks)"
proof (induction ks arbitrary: xs buf lg)
  case Nil
  then show ?case
    by (simp add: toArray_iterator.simps Condition_next.simps)
next
  case (Cons k ks)
  from reads_Cons[OF Cons.prems] obtain x xs' where
    x: "xs = x # xs'" "read coll k = Inr (Some x)"
       "map (read coll) ks = map (\<lambda>x. Inr (Some x)) xs'" by blast
  have pull: "nextObject (Source coll (Some (k # ks))) lg =
      (Item x, Source coll (Some ks), lg @ [Read k])"
    using x(2) by simp
  show ?case
  proof (cases "p x")
    case True
    show ?thesis
      by (simp add: toArray_iterator_Item[OF Condition_pass[where p = p, OF pull True]]
            Cons.IH[OF x(3)] x(1) True)
  next
    case False
    have "toArray_iterator (Condition (Some (Source coll (Some (k # ks)))) (Callable p)) buf lg =
          toArray_iterator (Condition (Some (Source coll (Some ks))) (Callable p)) buf (lg @ [Read k])"
      by (rule toArray_iterator_same_pull) (rule Condition_skip[where p = p, OF pull False])
    then show ?thesis by (simp add: Cons.IH[OF x(3)] x(1) False)
  qed
qed

subsection \<open>Draining an Offset stage\<close>

lemma Offset_same_pull:
  "nextObject s lg = nextObject s2 lg2 \<Longrightarrow>
   nextObject (Offset (Some s) k rdy) lg = nextObject (Offset (Some s2) k rdy) lg2"
  by (simp add: Offset_iterator.simps[of s] Offset_iterator.simps[of s2])

lemma toArray_iterator_Offset_through:
  "map (read coll) ks = map (\<lambda>x. Inr (Some x)) xs \<Longrightarrow> rdy \<or> k \<le> 0 \<Longrightarrow>
   toArray_iterator (Offset (Some (Source coll (Some ks))) k rdy) buf lg =
     (Success (buf @ xs), Offset (Some (Source coll (Some []))) k rdy, lg @ map Read ks)"
proof (induction ks arbitrary: xs buf lg)
  case Nil
  then show ?case by (auto simp: toArray_iterator.simps)
next
  case (Cons k' ks)
  from reads_Cons[OF Cons.prems(1)] obtain x xs' where
    x: "xs = x # xs'" "read coll k' = Inr (Some x)"
       "map (read coll) ks = map (\<lambda>x. Inr (Some x)) xs'" by blast
  show ?case
    using Cons.prems(2)
    by (subst toArray_iterator.simps) (auto simp: x Cons.IH[OF x(3) Cons.prems(2)])
qed

lemma Offset_iterator_Source:
  "map (read coll) ks = map (\<lambda>x. Inr (Some x)) xs \<Longrightarrow> 0 < r \<Longrightarrow>
   Offset_iterator (Source coll (Some ks)) r lg =
     (if int (length ks) < r
      then (Eof, Source coll (Some []), False, lg @ map Read ks)
      else (case nextObject (Source coll (Some (drop (nat r) ks))) (lg @ map Read (take (nat r) ks)) of
              (out, s'', lg'') \<Rightarrow> (out, s'', True, lg'')))"
proof (induction ks arbitrary: xs r lg)
  case Nil
  then show ?case by (simp add: Offset_iterator.simps)
next
  case (Cons k ks)
  from reads_Cons[OF Cons.prems(1)] obtain x xs' where
    x: "xs = x # xs'" "read coll k = Inr (Some x)"
       "map (read coll) ks = map (\<lambda>x. Inr (Some x)) xs'" by blast
  show ?case
  proof (cases "0 < r - 1")
    case True
    have n: "nat r = Suc (nat (r - 1))" using True by simp
    show ?thesis
      using True
      by (subst Offset_iterator.simps) (simp add: x(2) Cons.IH[OF x(3) True] n)
  next
    case False
    then have r: "r = 1" using Cons.prems(2) by simp
    show ?thesis
      by (subst Offset_iterator.simps) (simp add: x(2) r)
  qed
qed

lemma toArray_iterator_Offset_discard:
  assumes reads: "map (read coll) ks = map (\<lambda>x. Inr (Some x)) xs" and k: "0 < k"
  shows "toArray_iterator (Offset (Some (Source coll (Some ks))) k False) buf lg =
     (Success (buf @ drop (nat k) xs),
      Offset (Some (Source coll (Some []))) k (k \<le> int (length ks)), lg @ map Read ks)"
proof (cases "int (length ks) < k")
  case True
  then have "drop (nat k) xs = []" using reads_length[OF reads] by simp
  then show ?thesis
    using True k
    by (subst toArray_iterator.simps) (simp add: Offset_iterator_Source[OF reads k])
next
  case False
  let ?ks = "drop (nat k) ks" and ?xs = "drop (nat k) xs"
  have rd: "map (read coll) ?ks = map (\<lambda>x. Inr (Some x)) ?xs"
    by (rule reads_drop[OF reads])
  have split: "take (nat k) ks @ ?ks = ks" by simp
  show ?thesis
  proof (cases ?ks)
    case Nil
    then have "?xs = []" using rd by simp
    moreover have "take (nat k) ks = ks" using Nil by simp
    ultimately show ?thesis
      using False k Nil
      by (subst toArray_iterator.simps) (simp add: Offset_iterator_Source[OF reads k])
  next
    case (Cons k' ks')
    from reads_Cons[OF rd[unfolded Cons]] obtain x xs' where
      x: "?xs = x # xs'" "read coll k' = Inr (Some x)"
         "map (read coll) ks' = map (\<lambda>x. Inr (Some x)) xs'" by blast
    have ks: "ks = take (nat k) ks @ k' # ks'" using split Cons by simp
    have "lg @ map Read ks = lg @ map Read (take (nat k) ks) @ Read k' # map Read ks'"
      by (subst ks) simp
    then show ?thesis
      using False k
      by (subst toArray_iterator.simps)
         (simp add: Offset_iterator_Source[OF reads k] Cons x
            toArray_iterator_Offset_through[OF x(3)])
  qed
qed

lemma toArray_iterator_Offset:
  assumes reads: "map (read coll) ks = map (\<lambda>x. Inr (Some x)) xs"
  shows "fst (toArray_iterator (Offset (Some (Source coll (Some ks))) k False) buf lg) =
     Success (buf @ drop (nat k) xs)"
proof (cases "0 < k")
  case True
  then show ?thesis by (simp add: toArray_iterator_Offset_discard[OF reads])
next
  case False
  then show ?thesis by (simp add: toArray_iterator_Offset_through[OF reads])
qed

subsection \<open>Draining a Limit stage\<close>

lemma Limit_same_pull:
  "nextObject s lg = nextObject s2 lg2 \<Longrightarrow> 0 < r \<Longrightarrow>
   nextObject (Limit (Some s) l r) lg = nextObject (Limit (Some s2) l r) lg2"
  by simp

lemma toArray_iterator_Limit:
  "map (read coll) ks = map (\<lambda>x. Inr (Some x)) xs \<Longrightarrow>
   toArray_iterator (Limit (Some (Source coll (Some ks))) l r) buf lg =
     (Success (buf @ take (nat r) xs),
      Limit (Some (Source coll (Some (drop (nat r) ks)))) l (r - 1 - int (min (nat r) (length ks))),
      lg @ map Read (take (nat r) ks))"
proof (induction ks arbitrary: xs r buf lg)
  case Nil
  then show ?case by (simp add: toArray_iterator.simps)
next
  case (Cons k ks)
  from reads_Cons[OF Cons.prems(1)] obtain x xs' where
    x: "xs = x # xs'" "read coll k = Inr (Some x)"
       "map (read coll) ks = map (\<lambda>x. Inr (Some x)) xs'" by blast
  show ?case
  proof (cases "0 < r")
    case True
    have n: "nat r = Suc (nat (r - 1))" using True by simp
    have m: "r - 1 - 1 - int (min (nat (r - 1)) (length ks)) =
             r - 1 - int (min (nat r) (Suc (length ks)))"
      using True by (simp add: n)
    show ?thesis
      using True
      by (subst toArray_iterator.simps) (simp add: x Cons.IH[OF x(3)] n m del: min_Suc_Suc)
  next
    case False
    then show ?thesis by (subst toArray_iterator.simps) simp
  qed
qed

lemma pulls_Limit_spent:
  "r \<le> 0 \<Longrightarrow> pulls n (Limit src l r) lg = (replicate n Eof, Limit src l (r - int n), lg)"
  by (induction n arbitrary: r) auto

lemma pulls_Limit_rest:
  "int n \<le> r \<Longrightarrow>
   \<exists>s'. fst (snd (pulls n (Limit (Some s) l r) lg)) = Limit (Some s') l (r - int n)"
proof (induction n arbitrary: s r lg)
  case 0
  then show ?case by simp
next
  case (Suc n)
  obtain r1 s1 lg1 where p: "nextObject s lg = (r1, s1, lg1)"
    by (cases "nextObject s lg") auto
  from Suc.prems have "int n \<le> r - 1" by simp
  from Suc.IH[OF this, of s1 lg1] obtain s' where
    "fst (snd (pulls n (Limit (Some s1) l (r - 1)) lg1)) = Limit (Some s') l (r - 1 - int n)"
    by blast
  then show ?case
    using Suc.prems p by (auto simp: algebra_simps split: prod.splits)
qed

subsection \<open>Draining a Sort stage\<close>

lemma toArray_iterator_Sort_buffer:
  "toArray_iterator (Sort src c (Some ys)) buf lg = (Success (buf @ ys), Sort src c (Some []), lg)"
  by (induction ys arbitrary: buf) (simp_all add: toArray_iterator.simps[of "Sort src c (Some _)"])

lemma nextObject_Sort_drain:
  "map (read coll) ks = map (\<lambda>x. Inr (Some x)) xs \<Longrightarrow>
   nextObject (Sort (Some (Source coll (Some ks))) c None) lg =
   nextObject (Sort (Some (Source coll (Some []))) c (Some (Array_sort c xs))) (lg @ map Read ks)"
  by (simp add: toArray.simps toArray_iterator_Source)

lemma pulls_Sort_buffer:
  "pulls n (Sort src c (Some ys)) lg =
     (map Item (take n ys) @ replicate (n - length ys) Eof, Sort src c (Some (drop n ys)), lg)"
proof (induction n arbitrary: ys)
  case 0
  then show ?case by simp
next
  case (Suc n)
  then show ?case by (cases ys) simp_all
qed

subsection \<open>Fresh cursors\<close>

lemma Cursor_toArray_fresh:
  assumes "memo_toArray c = None"
  shows "items_of (Cursor_toArray c w) = fst (toArray (source c) (calls w))"
    and "calls (snd (snd (Cursor_toArray c w))) = snd (snd (toArray (source c) (calls w)))"
    and "source (fst (snd (Cursor_toArray c w))) = fst (snd (toArray (source c) (calls w)))"
  using assms
  by (auto simp: Cursor_toArray_def items_of_def alloc_def clone_def
      split: prod.splits reply.splits)

lemma toArray_Source_start:
  assumes "stores coll ks xs"
  shows "toArray (Some (Source coll None)) lg =
     (Success xs, Some (Source coll (Some [])), lg @ Index # map Read ks)"
proof -
  from assms have i: "index coll = Inr ks"
    and r: "map (read coll) ks = map (\<lambda>x. Inr (Some x)) xs"
    by (simp_all add: stores_def)
  have "toArray_iterator (Source coll None) [] lg =
        toArray_iterator (Source coll (Some ks)) [] (lg @ [Index])"
    by (rule toArray_iterator_same_pull) (rule nextObject_Source_start[OF i])
  then show ?thesis by (simp add: toArray.simps toArray_iterator_Source[OF r])
qed

lemma toArray_Condition_start:
  assumes "stores coll ks xs"
  shows "toArray (Some (Condition (Some (Source coll None)) (Callable p))) lg =
     (Success (filter p xs), Some (Condition (Some (Source coll (Some []))) (Callable p)),
      lg @ Index # map Read ks)"
proof -
  from assms have i: "index coll = Inr ks"
    and r: "map (read coll) ks = map (\<lambda>x. Inr (Some x)) xs"
    by (simp_all add: stores_def)
  have "toArray_iterator (Condition (Some (Source coll None)) (Callable p)) [] lg =
        toArray_iterator (Condition (Some (Source coll (Some ks))) (Callable p)) [] (lg @ [Index])"
    by (intro toArray_iterator_same_pull Condition_same_pull nextObject_Source_start[OF i])
  then show ?thesis by (simp add: toArray.simps toArray_iterator_Condition[OF r])
qed

lemma toArray_Offset_start:
  assumes "stores coll ks xs"
  shows "fst (toArray (Some (Offset (Some (Source coll None)) k False)) lg) =
     Success (drop (nat k) xs)"
proof -
  from assms have i: "index coll = Inr ks"
    and r: "map (read coll) ks = map (\<lambda>x. Inr (Some x)) xs"
    by (simp_all add: stores_def)
  have "toArray_iterator (Offset (Some (Source coll None)) k False) [] lg =
        toArray_iterator (Offset (Some (Source coll (Some ks))) k False) [] (lg @ [Index])"
    by (intro toArray_iterator_same_pull Offset_same_pull nextObject_Source_start[OF i])
  then show ?thesis
    using toArray_iterator_Offset[OF r, of k "[]" "lg @ [Index]"]
    by (simp add: fst_toArray_Some)
qed

lemma toArray_Limit_start:
  assumes "stores coll ks xs"
  shows "fst (toArray (Some (Limit (Some (Source coll None)) l k)) lg) =
           Success (take (nat k) xs)"
    and "snd (snd (toArray (Some (Limit (Some (Source coll None)) l k)) lg)) =
           (if 0 < k then lg @ Index # map Read (take (nat k) ks) else lg)"
proof -
  from assms have i: "index coll = Inr ks"
    and r: "map (read coll) ks = map (\<lambda>x. Inr (Some x)) xs"
    by (simp_all add: stores_def)
  have "0 < k \<Longrightarrow> toArray_iterator (Limit (Some (Source coll None)) l k) [] lg =
        toArray_iterator (Limit (Some (Source coll (Some ks))) l k) [] (lg @ [Index])"
    by (intro toArray_iterator_same_pull Limit_same_pull nextObject_Source_start[OF i])
  moreover have "\<not> 0 < k \<Longrightarrow> toArray_iterator (Limit (Some (Source coll None)) l k) [] lg =
        (Success [], Limit (Some (Source coll None)) l (k - 1), lg)"
    by (simp add: toArray_iterator.simps)
  ultimately show "fst (toArray (Some (Limit (Some (Source coll None)) l k)) lg) =
           Success (take (nat k) xs)"
    and "snd (snd (toArray (Some (Limit (Some (Source coll None)) l k)) lg)) =
           (if 0 < k then lg @ Index # map Read (take (nat k) ks) else lg)"
    by (cases "0 < k"; simp add: fst_toArray_Some calls_toArray_Some toArray_iterator_Limit[OF r])+
qed

lemma find_plain:
  "find coll Absent Absent =
     \<lparr>collection = coll, source = Some (Source coll None), memo_index = None, memo_toArray = None\<rparr>"
  by (simp add: find_def Cursor_def)

lemma find_Condition:
  "find coll (Callable p) Absent =
     \<lparr>collection = coll, source = Some (Condition (Some (Source coll None)) (Callable p)),
      memo_index = None, memo_toArray = None\<rparr>"
  by (simp add: find_def Cursor_def)

lemma find_not_first_Source:
  "condition \<noteq> Absent \<or> projection \<noteq> Absent \<Longrightarrow>
   \<not> is_first_Source (source (find coll condition projection))"
  by (cases condition; cases projection) (simp_all add: find_def Cursor_def)

lemma memo_find [simp]:
  "memo_toArray (find coll condition projection) = None"
  "memo_index (find coll condition projection) = None"
  by (simp_all add: find_def Cursor_def Let_def)

lemma pulls_Offset_exhausted:
  "pulls n (Offset (Some (Source coll (Some []))) k rdy) lg =
     (replicate n Eof, Offset (Some (Source coll (Some []))) k rdy, lg)"
  by (induction n) (auto simp: Offset_iterator.simps)

lemma first_pull_Offset_exhausted:
  assumes "stores coll ks xs" and "int (length xs) \<le> k"
  shows "nextObject (Offset (Some (Source coll None)) k False) lg =
     (Eof, Offset (Some (Source coll (Some []))) k (0 < k \<and> k \<le> int (length ks)),
      lg @ Index # map Read ks)"
proof -
  from assms have i: "index coll = Inr ks"
    and r: "map (read coll) ks = map (\<lambda>x. Inr (Some x)) xs"
    by (simp_all add: stores_def)
  have len: "length xs = length ks" by (rule reads_length[OF r])
  have start: "nextObject (Offset (Some (Source coll None)) k False) lg =
        nextObject (Offset (Some (Source coll (Some ks))) k False) (lg @ [Index])"
    by (intro Offset_same_pull nextObject_Source_start[OF i])
  show ?thesis
  proof (cases "0 < k")
    case True
    show ?thesis
    proof (cases "int (length ks) < k")
      case less: True
      then show ?thesis
        unfolding start using True by (simp add: Offset_iterator_Source[OF r True])
    next
      case False
      then have "drop (nat k) ks = []" and "take (nat k) ks = ks" and "k \<le> int (length ks)"
        using assms(2) len by simp_all
      then show ?thesis
        unfolding start using True False by (simp add: Offset_iterator_Source[OF r True])
    qed
  next
    case False
    then have "length ks = 0" using assms(2) len by linarith
    then have "ks = []" by simp
    then show ?thesis unfolding start using False by simp
  qed
qed

lemma pulls_Offset_beyond:
  assumes "stores coll ks xs" and "int (length xs) \<le> k"
  shows "fst (pulls n (Offset (Some (Source coll None)) k False) lg) = replicate n Eof"
proof (cases n)
  case 0
  then show ?thesis by simp
next
  case (Suc m)
  then show ?thesis
    by (simp add: first_pull_Offset_exhausted[OF assms] pulls_Offset_exhausted
          del: nextObject.simps)
qed

lemma served_pulls_Limit:
  "length (served (fst (pulls n (Limit src l r) lg))) \<le> nat r"
proof (induction n arbitrary: src r lg)
  case 0
  then show ?case by simp
next
  case (Suc n)
  show ?case
  proof (cases "0 < r")
    case True
    have n: "nat r = Suc (nat (r - 1))" using True by simp
    show ?thesis
    proof (cases src)
      case None
      then show ?thesis
        using True Suc.IH[of None "r - 1" lg] by (simp add: n case_prod_beta)
    next
      case (Some s)
      obtain r1 s1 lg1 where p: "nextObject s lg = (r1, s1, lg1)"
        by (cases "nextObject s lg") auto
      show ?thesis
        using True Some p Suc.IH[of "Some s1" "r - 1" lg1]
        by (cases r1) (simp_all add: n case_prod_beta)
    qed
  next
    case False
    then show ?thesis
      using Suc.IH[of src "r - 1" lg] by (simp add: case_prod_beta)
  qed
qed

subsection \<open>Chains without a missing upstream\<close>

lemma linked_preserved:
  shows "linked (s :: ('e, 'k, 'a) stage) \<longrightarrow>
           linked (fst (snd (nextObject s lg))) \<and> (\<forall>t. fst (nextObject s lg) \<noteq> Throw t)"
    and "linked (s1 :: ('e, 'k, 'a) stage) \<longrightarrow>
           linked (fst (snd (Condition_next p s1 lg1))) \<and>
           (\<forall>t. fst (Condition_next p s1 lg1) \<noteq> Throw t)"
    and "linked (s2 :: ('e, 'k, 'a) stage) \<longrightarrow>
           linked (fst (snd (Offset_iterator s2 rest lg2))) \<and>
           (\<forall>t. fst (Offset_iterator s2 rest lg2) \<noteq> Throw t)"
    and "linked (s3 :: ('e, 'k, 'a) stage) \<longrightarrow>
           linked (fst (snd (toArray_iterator s3 buf lg3))) \<and>
           (\<forall>t. fst (toArray_iterator s3 buf lg3) \<noteq> Raised t)"
    and "linked_opt (src :: ('e, 'k, 'a) stage option) \<longrightarrow>
           linked_opt (fst (snd (toArray src lg4))) \<and>
           (\<forall>t. fst (toArray src lg4) \<noteq> Raised t)"
proof (induct s lg and p s1 lg1 and s2 rest lg2 and s3 buf lg3 and src lg4
    rule: nextObject_Condition_next_Offset_iterator_toArray_iterator_toArray.induct)
  case (1 coll lg)
  then show ?case by (auto split: sum.splits)
next
  case (2 coll lg)
  then show ?case by simp
next
  case (3 coll k ks lg)
  then show ?case by (auto split: sum.splits option.splits)
next
  case (4 src cond lg)
  then show ?case
    by (cases cond; cases src) (auto simp: case_prod_beta)
next
  case (5 p s lg)
  show ?case
  proof
    assume l: "linked s"
    obtain r1 s1 lg1 where n: "nextObject s lg = (r1, s1, lg1)"
      by (cases "nextObject s lg") auto
    from 5(1) l n have l1: "linked s1" and nt: "\<forall>t. r1 \<noteq> Throw t" by auto
    show "linked (fst (snd (Condition_next p s lg))) \<and> (\<forall>t. fst (Condition_next p s lg) \<noteq> Throw t)"
    proof (cases r1)
      case (Item x)
      show ?thesis
      proof (cases "p x")
        case True
        then show ?thesis using n Item l1 by (simp add: Condition_next.simps[of p s])
      next
        case False
        from 5(2)[OF n[symmetric] Item refl False] l1
        show ?thesis using n Item False by (simp add: Condition_next.simps[of p s])
      qed
    qed (use n l1 nt in \<open>simp_all add: Condition_next.simps[of p s]\<close>)
  qed
next
  case (6 src sorter lg)
  then show ?case by (cases src) simp_all
next
  case (7 src sorter x xs lg)
  then show ?case by (cases src) simp_all
next
  case (8 src sorter lg)
  show ?case
  proof
    assume l: "linked (Sort src sorter None)"
    then have lo: "linked_opt src" by (cases src) auto
    obtain r1 src1 lg1 where t: "toArray src lg = (r1, src1, lg1)"
      by (cases "toArray src lg") auto
    from 8(1) lo t have l1: "linked_opt src1" and nt: "\<forall>t. r1 \<noteq> Raised t" by auto
    have ls: "linked (Sort src1 sorter b)" for b using l1 by (cases src1) auto
    show "linked (fst (snd (nextObject (Sort src sorter None) lg))) \<and>
          (\<forall>t. fst (nextObject (Sort src sorter None) lg) \<noteq> Throw t)"
    proof (cases r1)
      case (Success buf)
      from 8(2)[OF t[symmetric] Success refl] ls
      show ?thesis using t Success by simp
    qed (use t ls nt in simp_all)
  qed
next
  case (9 lg)
  then show ?case by (simp add: toArray.simps)
next
  case (10 s lg)
  then show ?case by (simp add: toArray.simps case_prod_beta)
next
  case (11 s buf lg)
  show ?case
  proof
    assume l: "linked s"
    obtain r1 s1 lg1 where n: "nextObject s lg = (r1, s1, lg1)"
      by (cases "nextObject s lg") auto
    from 11(1) l n have l1: "linked s1" and nt: "\<forall>t. r1 \<noteq> Throw t" by auto
    show "linked (fst (snd (toArray_iterator s buf lg))) \<and>
          (\<forall>t. fst (toArray_iterator s buf lg) \<noteq> Raised t)"
    proof (cases r1)
      case (Item x)
      from 11(2)[OF n[symmetric] Item refl] l1
      show ?thesis using n Item by (simp add: toArray_iterator.simps[of s])
    qed (use n l1 nt in \<open>simp_all add: toArray_iterator.simps[of s]\<close>)
  qed
next
  case (12 src offset ready lg)
  then show ?case
    by (cases src) (auto simp: case_prod_beta)
next
  case (13 s rest lg)
  show ?case
  proof
    assume l: "linked s"
    obtain r1 s1 lg1 where n: "nextObject s lg = (r1, s1, lg1)"
      by (cases "nextObject s lg") auto
    from 13(1) l n have l1: "linked s1" and nt: "\<forall>t. r1 \<noteq> Throw t" by auto
    show "linked (fst (snd (Offset_iterator s rest lg))) \<and>
          (\<forall>t. fst (Offset_iterator s rest lg) \<noteq> Throw t)"
    proof (cases r1)
      case (Item x)
      show ?thesis
      proof (cases "0 < rest - 1")
        case True
        from 13(2)[OF n[symmetric] Item refl True] l1
        show ?thesis using n Item True by (simp add: Offset_iterator.simps[of s])
      next
        case False
        from 13(3)[OF n[symmetric] Item refl False] l1
        show ?thesis using n Item False
          by (simp add: Offset_iterator.simps[of s] case_prod_beta)
      qed
    qed (use n l1 nt in \<open>simp_all add: Offset_iterator.simps[of s]\<close>)
  qed
next
  case (14 src limit rest lg)
  then show ?case by (cases src) (auto simp: case_prod_beta)
next
  case (15 src projection lg)
  then show ?case
    by (cases projection; cases src)
       (auto simp: case_prod_beta split: outcome.splits option.splits prod.splits)
qed

lemma linked_rewind: "linked s \<Longrightarrow> fst (rewind s) = None \<and> linked (snd (rewind s))"
  by (induction s rule: rewind.induct) (auto simp: case_prod_beta)

lemma source_Cursor_index [simp]: "source (fst (snd (Cursor_index c w))) = source c"
  by (simp add: Cursor_index_def alloc_def clone_def split: option.splits sum.splits)

lemma source_Cursor_toArray:
  "linked_opt (source c) \<Longrightarrow> linked_opt (source (fst (snd (Cursor_toArray c w))))"
  using linked_preserved(5)[of "source c" "calls w"]
  by (auto simp: Cursor_toArray_def alloc_def clone_def split: option.splits prod.splits reply.splits)

lemma cursor_after_count:
  "fst (snd (Cursor_count c w)) =
     (if is_first_Source (source c) then fst (snd (Cursor_index c w))
      else fst (snd (Cursor_toArray c w)))"
  by (simp add: Cursor_count_def split: prod.splits reply.splits)

lemma used_linked: "used c \<Longrightarrow> linked_opt (source c)"
proof (induction rule: used.induct)
  case (created coll condition projection)
  then show ?case
    by (cases condition; cases projection) (simp_all add: find_def Cursor_def)
next
  case (after_sort c order)
  then show ?case by (cases "source c") (simp_all add: Cursor_sort_def)
next
  case (after_offset c offset)
  then show ?case by (cases "source c") (simp_all add: Cursor_offset_def)
next
  case (after_limit c limit)
  then show ?case by (cases "source c") (simp_all add: Cursor_limit_def)
next
  case (after_rewind c)
  then show ?case
    using linked_rewind
    by (cases "source c") (auto simp: Cursor_rewind_def case_prod_beta)
next
  case (after_nextObject c w)
  then show ?case
    using linked_preserved(1)
    by (cases "source c") (auto simp: Cursor_nextObject_def case_prod_beta)
next
  case (after_toArray c w)
  show ?case by (rule source_Cursor_toArray[OF after_toArray.IH])
next
  case (after_count c w)
  then show ?case
    using source_Cursor_toArray[of c w] by (simp add: cursor_after_count)
next
  case (after_index c w)
  then show ?case by simp
qed

subsection \<open>Errors and memoized arrays\<close>

lemma toArray_iterator_as_pulls:
  shows "nextObject (s :: ('e, 'k, 'a) stage) lg = nextObject s lg"
    and "Condition_next p (s1 :: ('e, 'k, 'a) stage) lg1 = Condition_next p s1 lg1"
    and "Offset_iterator (s2 :: ('e, 'k, 'a) stage) rest lg2 = Offset_iterator s2 rest lg2"
    and "(\<forall>e s' lg'. toArray_iterator (s3 :: ('e, 'k, 'a) stage) buf lg3 = (Failure e, s', lg') \<longrightarrow>
            (\<exists>xs. pulls (Suc (length xs)) s3 lg3 = (map Item xs @ [Err e], s', lg'))) \<and>
         (\<forall>ys s' lg'. toArray_iterator s3 buf lg3 = (Success ys, s', lg') \<longrightarrow>
            (\<exists>xs. ys = buf @ xs \<and>
                  pulls (Suc (length xs)) s3 lg3 = (map Item xs @ [Eof], s', lg')))"
    and "toArray (src :: ('e, 'k, 'a) stage option) lg4 = toArray src lg4"
proof (induct s lg and p s1 lg1 and s2 rest lg2 and s3 buf lg3 and src lg4
    rule: nextObject_Condition_next_Offset_iterator_toArray_iterator_toArray.induct)
  case (11 s buf lg)
  obtain r1 s1 lg1 where n: "nextObject s lg = (r1, s1, lg1)"
    by (cases "nextObject s lg") auto
  show ?case
  proof (cases r1)
    case (Item x)
    note ih = 11(2)[OF n[symmetric] Item refl]
    have step: "toArray_iterator s buf lg = toArray_iterator s1 (buf @ [x]) lg1"
      using n Item by (simp add: toArray_iterator.simps[of s])
    have fail: "\<exists>xs. pulls (Suc (length xs)) s lg = (map Item xs @ [Err e], s', lg')"
      if "toArray_iterator s buf lg = (Failure e, s', lg')" for e s' lg'
    proof -
      from that step ih obtain xs where
        "pulls (Suc (length xs)) s1 lg1 = (map Item xs @ [Err e], s', lg')" by auto
      then have "pulls (Suc (length (x # xs))) s lg = (map Item (x # xs) @ [Err e], s', lg')"
        using n Item by simp
      then show ?thesis by blast
    qed
    have ok: "\<exists>xs. ys = buf @ xs \<and> pulls (Suc (length xs)) s lg = (map Item xs @ [Eof], s', lg')"
      if "toArray_iterator s buf lg = (Success ys, s', lg')" for ys s' lg'
    proof -
      from that step ih obtain xs where xs: "ys = (buf @ [x]) @ xs"
        "pulls (Suc (length xs)) s1 lg1 = (map Item xs @ [Eof], s', lg')" by auto
      then have "pulls (Suc (length (x # xs))) s lg = (map Item (x # xs) @ [Eof], s', lg')"
        using n Item by simp
      with xs(1) have "ys = buf @ (x # xs) \<and>
          pulls (Suc (length (x # xs))) s lg = (map Item (x # xs) @ [Eof], s', lg')" by simp
      then show ?thesis by blast
    qed
    from fail ok show ?thesis by blast
  next
    case (Err e)
    then have "toArray_iterator s buf lg = (Failure e, s1, lg1)"
      using n by (simp add: toArray_iterator.simps[of s])
    moreover have "pulls (Suc (length [])) s lg = (map Item [] @ [Err e], s1, lg1)"
      using n Err by simp
    ultimately show ?thesis by (metis Pair_inject reply.distinct(1) reply.inject(1))
  next
    case Eof
    then have "toArray_iterator s buf lg = (Success buf, s1, lg1)"
      using n by (simp add: toArray_iterator.simps[of s])
    moreover have "pulls (Suc (length [])) s lg = (map Item [] @ [Eof], s1, lg1)"
      using n Eof by simp
    ultimately show ?thesis
      by (metis Pair_inject append_Nil2 reply.distinct(1) reply.inject(2))
  next
    case (Throw t)
    then show ?thesis using n by (simp add: toArray_iterator.simps[of s])
  qed
qed simp_all

lemma root_decorated [simp]:
  "root (Condition src cond) = root_opt src"
  "root (Projection src projection) = root_opt src"
  "root (Sort src sorter l) = root_opt src"
  "root (Offset src offset ready) = root_opt src"
  "root (Limit src limit rest) = root_opt src"
  by (cases src; simp)+





lemma memo_after_toArray:
  "memo_index (fst (snd (Cursor_toArray c w))) = memo_index c"
  "memo_toArray c = Some m \<Longrightarrow> memo_toArray (fst (snd (Cursor_toArray c w))) = Some m"
  by (auto simp: Cursor_toArray_def alloc_def clone_def
      split: option.splits prod.splits reply.splits)

lemma memo_after_index:
  "memo_toArray (fst (snd (Cursor_index c w))) = memo_toArray c"
  "memo_index c = Some m \<Longrightarrow> memo_index (fst (snd (Cursor_index c w))) = Some m"
  by (auto simp: Cursor_index_def alloc_def clone_def split: option.splits sum.splits)

lemma memo_after_nextObject:
  "memo_toArray (fst (snd (Cursor_nextObject c w))) = memo_toArray c"
  "memo_index (fst (snd (Cursor_nextObject c w))) = memo_index c"
  by (auto simp: Cursor_nextObject_def split: option.splits prod.splits)

lemma memo_after_rewind:
  "memo_toArray (snd (Cursor_rewind c)) = memo_toArray c"
  "memo_index (snd (Cursor_rewind c)) = memo_index c"
  by (auto simp: Cursor_rewind_def split: option.splits prod.splits)

lemma memo_later_on:
  assumes "later_on c1 c2"
  shows "(\<forall>m. memo_toArray c1 = Some m \<longrightarrow> memo_toArray c2 = Some m) \<and>
         (\<forall>m. memo_index c1 = Some m \<longrightarrow> memo_index c2 = Some m)"
  using assms
proof (induction rule: later_on.induct)
  case (count_called c c' w)
  then show ?case
    by (simp add: cursor_after_count memo_after_toArray memo_after_index)
qed (simp_all add: Cursor_sort_def Cursor_offset_def Cursor_limit_def memo_after_rewind
       memo_after_nextObject memo_after_toArray memo_after_index)

lemma invalid_ahead_pull:
  "invalid_ahead s = Some e \<Longrightarrow> \<exists>s'. nextObject s lg = (Err e, s', lg)"
proof (induction s arbitrary: lg rule: invalid_ahead.induct)
  case (5 s p)
  then obtain s' where "nextObject s lg = (Err e, s', lg)" by auto
  from Condition_err[OF this, of p] show ?case by blast
next
  case (9 s f)
  then obtain s' where "nextObject s lg = (Err e, s', lg)" by auto
  then show ?case by simp
next
  case (12 s sorter)
  then obtain s' where "nextObject s lg = (Err e, s', lg)" by auto
  then show ?case by (simp add: toArray.simps toArray_iterator_Err)
next
  case (14 s offset ready)
  then obtain s' where "nextObject s lg = (Err e, s', lg)" by auto
  then show ?case by (simp add: Offset_iterator.simps[of s])
next
  case (16 s limit rest)
  then have "rest > 0" and "invalid_ahead s = Some e" by (simp_all split: if_splits)
  with 16 obtain s' where "nextObject s lg = (Err e, s', lg)" by auto
  with \<open>rest > 0\<close> show ?case by simp
qed simp_all

lemma invalid_ahead_find:
  "condition = NotCallable \<or> projection = NotCallable \<Longrightarrow>
   \<exists>s. source (find coll condition projection) = Some s \<and>
       invalid_ahead s =
         Some (if projection = NotCallable then InvalidProjection else InvalidCondition)"
  by (cases condition; cases projection) (simp_all add: find_def Cursor_def)

lemma Cursor_nextObject_find_invalid:
  "condition = NotCallable \<or> projection = NotCallable \<Longrightarrow>
   Cursor_nextObject (find coll condition projection) w =
     (Err (if projection = NotCallable then InvalidProjection else InvalidCondition),
      find coll condition projection, w)"
  by (cases condition; cases projection)
     (simp_all add: find_def Cursor_def Cursor_nextObject_def)


lemma Cursor_toArray_sets_memo:
  assumes "Cursor_toArray c w = (Success a, c1, w1)"
  shows "\<exists>m. memo_toArray c1 = Some m \<and> cells (item_arrays w1) m = cells (item_arrays w1) a"
proof (cases "memo_toArray c")
  case None
  obtain r src1 lg1 where t: "toArray (source c) (calls w) = (r, src1, lg1)"
    by (cases "toArray (source c) (calls w)") auto
  from assms None t show ?thesis
    by (cases r) (auto simp: Cursor_toArray_def clone_def alloc_def)
next
  case (Some m)
  with assms show ?thesis
    by (auto simp: Cursor_toArray_def clone_def alloc_def)
qed

lemma Cursor_toArray_cached:
  assumes "memo_toArray c = Some m"
  shows "items_of (Cursor_toArray c w) = Success (cells (item_arrays w) m)"
    and "calls (snd (snd (Cursor_toArray c w))) = calls w"
    and "fst (snd (Cursor_toArray c w)) = c"
  using assms by (simp_all add: Cursor_toArray_def items_of_def clone_def alloc_def)

lemma Cursor_index_sets_memo:
  assumes "Cursor_index c w = (Success a, c1, w1)"
  shows "\<exists>m. memo_index c1 = Some m \<and> cells (id_arrays w1) m = cells (id_arrays w1) a"
  using assms
  by (cases "memo_index c"; cases "index (collection c)")
     (auto simp: Cursor_index_def clone_def alloc_def)

lemma Cursor_index_cached:
  assumes "memo_index c = Some m"
  shows "ids_of (Cursor_index c w) = Success (cells (id_arrays w) m)"
    and "calls (snd (snd (Cursor_index c w))) = calls w"
    and "fst (snd (Cursor_index c w)) = c"
  using assms by (simp_all add: Cursor_index_def ids_of_def clone_def alloc_def)

lemma listed_once_value:
  "listed_once =
     (Success 1,
      \<lparr>collection = demo, source = Some (Source demo (Some [])),
       memo_index = None, memo_toArray = Some 0\<rparr>,
      \<lparr>calls = [Index, Read ''foo'', Read ''bar'', Read ''baz'', Read ''qux''],
       id_arrays = \<lparr>cells = (\<lambda>a. []), top = 0\<rparr>,
       item_arrays = \<lparr>cells = (\<lambda>a. [])(0 := [123, 111, 999, 123], 1 := [123, 111, 999, 123]),
                      top = 2\<rparr>\<rparr>)"
proof -
  have "toArray (Some (Source demo None)) [] =
     (Success [123, 111, 999, 123], Some (Source demo (Some [])),
      [Index, Read ''foo'', Read ''bar'', Read ''baz'', Read ''qux''])"
    by (simp add: toArray.simps toArray_iterator.simps demo_def)
  then show ?thesis
    by (simp add: listed_once_def find_plain Cursor_toArray_def world0_def alloc_def clone_def)
qed

subsection \<open>Sorting with a comparator\<close>

lemma set_insort_by [simp]: "set (insort_by c x xs) = insert x (set xs)"
  by (induction xs) auto

lemma mset_insort_by [simp]: "mset (insort_by c x xs) = add_mset x (mset xs)"
  by (induction xs) auto

lemma mset_Array_sort [simp]: "mset (Array_sort c xs) = mset xs"
  by (induction xs) (auto simp: Array_sort_def)

lemma sorted_wrt_insort_by:
  assumes total: "\<And>a b. c a b \<le> 0 \<or> c b a \<le> 0"
    and trans: "\<And>a b d. c a b \<le> 0 \<Longrightarrow> c b d \<le> 0 \<Longrightarrow> c a d \<le> 0"
  shows "sorted_wrt (\<lambda>a b. c a b \<le> 0) xs \<Longrightarrow> sorted_wrt (\<lambda>a b. c a b \<le> 0) (insort_by c x xs)"
proof (induction xs)
  case Nil
  then show ?case by simp
next
  case (Cons y ys)
  show ?case
  proof (cases "c x y \<le> 0")
    case True
    then have "\<forall>z \<in> set ys. c x z \<le> 0" using Cons.prems trans by auto
    with True Cons.prems show ?thesis by simp
  next
    case False
    then have "c y x \<le> 0" using total by blast
    with False Cons show ?thesis by auto
  qed
qed

lemma sorted_wrt_Array_sort:
  assumes total: "\<And>a b. c a b \<le> 0 \<or> c b a \<le> 0"
    and trans: "\<And>a b d. c a b \<le> 0 \<Longrightarrow> c b d \<le> 0 \<Longrightarrow> c a d \<le> 0"
  shows "sorted_wrt (\<lambda>a b. c a b \<le> 0) (Array_sort c xs)"
proof (induction xs)
  case Nil
  then show ?case by (simp add: Array_sort_def)
next
  case (Cons x xs)
  have "Array_sort c (x # xs) = insort_by c x (Array_sort c xs)"
    by (simp add: Array_sort_def)
  with sorted_wrt_insort_by[of c, OF total trans Cons] show ?case by simp
qed

lemma SortOp_parser_flip: "SortOp_parser spec b a = - SortOp_parser spec a b"
  by (induction spec a b rule: SortOp_parser.induct) (auto split: direction.splits)

lemma SortOp_parser_total: "SortOp_parser spec a b \<le> 0 \<or> SortOp_parser spec b a \<le> 0"
  using SortOp_parser_flip[of spec b a] by linarith

lemma SortOp_parser_head:
  "SortOp_parser ((f, d) # rest) a b \<le> 0 \<longleftrightarrow>
     (if a f = b f then SortOp_parser rest a b \<le> 0
      else if d = Ascending then a f < b f else b f < a f)"
  by (cases d) auto

lemma SortOp_parser_trans:
  "SortOp_parser spec a b \<le> 0 \<Longrightarrow> SortOp_parser spec b c \<le> 0 \<Longrightarrow> SortOp_parser spec a c \<le> 0"
proof (induction spec)
  case Nil
  then show ?case by simp
next
  case (Cons fd rest)
  obtain f d where fd: "fd = (f, d)" by (cases fd)
  from Cons.prems show ?case
    unfolding fd SortOp_parser_head
    using Cons.IH by (auto split: if_splits)
qed

lemma sorted_by_spec:
  "sorted_wrt (\<lambda>a b. SortOp_parser spec a b \<le> 0) (Array_sort (SortOp_parser spec) xs)"
  by (rule sorted_wrt_Array_sort) (rule SortOp_parser_total, erule (1) SortOp_parser_trans)

lemma toArray_Sort_start:
  assumes "stores coll ks xs"
  shows "nextObject (Sort (Some (Source coll None)) sorter None) lg =
     (case Array_sort sorter xs of [] \<Rightarrow> Eof | x # rest \<Rightarrow> Item x,
      Sort (Some (Source coll (Some []))) sorter (Some (tl (Array_sort sorter xs))),
      lg @ Index # map Read ks)"
    and "toArray (Some (Sort (Some (Source coll None)) sorter None)) lg =
     (Success (Array_sort sorter xs),
      Some (Sort (Some (Source coll (Some []))) sorter (Some [])), lg @ Index # map Read ks)"
proof -
  have drained: "toArray (Some (Source coll None)) lg =
     (Success xs, Some (Source coll (Some [])), lg @ Index # map Read ks)"
    by (rule toArray_Source_start[OF assms])
  then have step: "nextObject (Sort (Some (Source coll None)) sorter None) lg =
      nextObject (Sort (Some (Source coll (Some []))) sorter (Some (Array_sort sorter xs)))
        (lg @ Index # map Read ks)"
    by simp
  show "nextObject (Sort (Some (Source coll None)) sorter None) lg =
     (case Array_sort sorter xs of [] \<Rightarrow> Eof | x # rest \<Rightarrow> Item x,
      Sort (Some (Source coll (Some []))) sorter (Some (tl (Array_sort sorter xs))),
      lg @ Index # map Read ks)"
    unfolding step by (cases "Array_sort sorter xs") simp_all
  have "toArray_iterator (Sort (Some (Source coll None)) sorter None) [] lg =
        toArray_iterator (Sort (Some (Source coll (Some []))) sorter (Some (Array_sort sorter xs))) []
          (lg @ Index # map Read ks)"
    by (rule toArray_iterator_same_pull) (rule step)
  then show "toArray (Some (Sort (Some (Source coll None)) sorter None)) lg =
     (Success (Array_sort sorter xs),
      Some (Sort (Some (Source coll (Some []))) sorter (Some [])), lg @ Index # map Read ks)"
    by (simp add: toArray.simps toArray_iterator_Sort_buffer)
qed

section \<open>Properties\<close>

text \<open>
  C1. For every backing set and every condition (including none), \<^verbatim>\<open>find(condition).count()\<close>
  reports the length of the list that \<^verbatim>\<open>find(condition).toArray()\<close> produces (and fails
  the same way when that fails). In particular, without any stage beyond the Source the
  count comes from the id list alone (one \<^verbatim>\<open>index\<close> call, no \<^verbatim>\<open>read\<close>) and equals the
  number of items that \<^verbatim>\<open>toArray\<close> materializes.
\<close>

theorem count_equals_toArray_length:
  assumes "stores coll ks xs"
  shows "fst (Cursor_count (find coll condition projection) w) =
           (case items_of (Cursor_toArray (find coll condition projection) w) of
              Failure e \<Rightarrow> Failure e
            | Success ys \<Rightarrow> Success (length ys)
            | Raised t \<Rightarrow> Raised t) \<and>
         fst (Cursor_count (find coll Absent Absent) w) = Success (length xs) \<and>
         calls (snd (snd (Cursor_count (find coll Absent Absent) w))) = calls w @ [Index] \<and>
         items_of (Cursor_toArray (find coll Absent Absent) w) = Success xs"
proof -
  from assms have i: "index coll = Inr ks"
    and r: "map (read coll) ks = map (\<lambda>x. Inr (Some x)) xs"
    by (simp_all add: stores_def)
  have len: "length xs = length ks" by (rule reads_length[OF r])
  have fast: "fst (Cursor_count (find coll Absent Absent) w) = Success (length xs)"
    by (simp add: find_plain Cursor_count_def Cursor_index_def i alloc_def clone_def len)
  have fast_calls:
    "calls (snd (snd (Cursor_count (find coll Absent Absent) w))) = calls w @ [Index]"
    by (simp add: find_plain Cursor_count_def Cursor_index_def i alloc_def clone_def)
  have full: "items_of (Cursor_toArray (find coll Absent Absent) w) = Success xs"
    by (simp add: Cursor_toArray_fresh(1) find_plain toArray_Source_start[OF assms])
  have "fst (Cursor_count (find coll condition projection) w) =
           (case items_of (Cursor_toArray (find coll condition projection) w) of
              Failure e \<Rightarrow> Failure e
            | Success ys \<Rightarrow> Success (length ys)
            | Raised t \<Rightarrow> Raised t)"
  proof (cases "condition = Absent \<and> projection = Absent")
    case True
    then show ?thesis using fast full by simp
  next
    case False
    then have "\<not> is_first_Source (source (find coll condition projection))"
      by (intro find_not_first_Source) simp
    then show ?thesis
      by (simp add: Cursor_count_def items_of_def split: prod.splits reply.splits)
  qed
  with fast fast_calls full show ?thesis by simp
qed

theorem count_equals_toArray_length_witness:
  "stores demo [''foo'', ''bar'', ''baz'', ''qux''] [123, 111, 999, 123] \<and>
   fst (Cursor_count (find demo Absent Absent) world0) = Success 4 \<and>
   calls (snd (snd (Cursor_count (find demo Absent Absent) world0))) = [Index] \<and>
   items_of (Cursor_toArray (find demo Absent Absent) world0) = Success [123, 111, 999, 123] \<and>
   fst (Cursor_count (find demo (Callable (\<lambda>x. x = 123)) Absent) world0) = Success 2 \<and>
   items_of (Cursor_toArray (find demo (Callable (\<lambda>x. x = 123)) Absent) world0) =
     Success [123, 123]"
proof -
  have st: "stores demo [''foo'', ''bar'', ''baz'', ''qux''] [123, 111, 999, 123]"
    by (simp add: stores_def demo_def)
  have two: "items_of (Cursor_toArray (find demo (Callable (\<lambda>x. x = 123)) Absent) world0) =
     Success [123, 123]"
    by (simp add: Cursor_toArray_fresh(1) find_Condition toArray_Condition_start[OF st])
  show ?thesis
    using st two
      count_equals_toArray_length[OF st, of Absent Absent world0]
      count_equals_toArray_length[OF st, of "Callable (\<lambda>x. x = 123)" Absent world0]
    by (simp add: world0_def)
qed

text \<open>
  C2. For every predicate \<open>p\<close>, \<^verbatim>\<open>find(p).toArray()\<close> over a backing set yields exactly
  the items of the full enumeration that satisfy \<open>p\<close>, in enumeration order. Over any
  upstream stage, \<^verbatim>\<open>nextObject\<close> of the Condition stage hands on the first item that
  satisfies \<open>p\<close>, drops an item that does not and pulls again, signals the end of
  the sequence when the upstream does, and hands on an upstream error with the upstream
  and the storage calls exactly as the failing pull left them (no further pull).
\<close>

theorem Condition_filters:
  fixes coll :: "('e, 'k, 'a) collection"
  assumes "stores coll ks xs"
  shows "items_of (Cursor_toArray (find coll (Callable p) Absent) w) = Success (filter p xs) \<and>
    (\<forall>(s :: ('e, 'k, 'a) stage) lg x s' lg'. nextObject s lg = (Item x, s', lg') \<and> p x \<longrightarrow>
       nextObject (Condition (Some s) (Callable p)) lg =
         (Item x, Condition (Some s') (Callable p), lg')) \<and>
    (\<forall>(s :: ('e, 'k, 'a) stage) lg x s' lg'. nextObject s lg = (Item x, s', lg') \<and> \<not> p x \<longrightarrow>
       nextObject (Condition (Some s) (Callable p)) lg =
         nextObject (Condition (Some s') (Callable p)) lg') \<and>
    (\<forall>(s :: ('e, 'k, 'a) stage) lg s' lg'. nextObject s lg = (Eof, s', lg') \<longrightarrow>
       nextObject (Condition (Some s) (Callable p)) lg =
         (Eof, Condition (Some s') (Callable p), lg')) \<and>
    (\<forall>(s :: ('e, 'k, 'a) stage) lg e s' lg'. nextObject s lg = (Err e, s', lg') \<longrightarrow>
       nextObject (Condition (Some s) (Callable p)) lg =
         (Err e, Condition (Some s') (Callable p), lg'))"
proof -
  have "items_of (Cursor_toArray (find coll (Callable p) Absent) w) = Success (filter p xs)"
    by (simp add: Cursor_toArray_fresh(1) find_Condition toArray_Condition_start[OF assms])
  moreover have "\<forall>(s :: ('e, 'k, 'a) stage) lg x s' lg'. nextObject s lg = (Item x, s', lg') \<and> p x \<longrightarrow>
       nextObject (Condition (Some s) (Callable p)) lg =
         (Item x, Condition (Some s') (Callable p), lg')"
    using Condition_pass[where p = p] by blast
  moreover have "\<forall>(s :: ('e, 'k, 'a) stage) lg x s' lg'. nextObject s lg = (Item x, s', lg') \<and> \<not> p x \<longrightarrow>
       nextObject (Condition (Some s) (Callable p)) lg =
         nextObject (Condition (Some s') (Callable p)) lg'"
    using Condition_skip[where p = p] by blast
  moreover have "\<forall>(s :: ('e, 'k, 'a) stage) lg s' lg'. nextObject s lg = (Eof, s', lg') \<longrightarrow>
       nextObject (Condition (Some s) (Callable p)) lg =
         (Eof, Condition (Some s') (Callable p), lg')"
    using Condition_eof[where p = p] by blast
  moreover have "\<forall>(s :: ('e, 'k, 'a) stage) lg e s' lg'. nextObject s lg = (Err e, s', lg') \<longrightarrow>
       nextObject (Condition (Some s) (Callable p)) lg =
         (Err e, Condition (Some s') (Callable p), lg')"
    using Condition_err[where p = p] by blast
  ultimately show ?thesis by blast
qed

theorem Condition_filters_witness:
  "stores demo [''foo'', ''bar'', ''baz'', ''qux''] [123, 111, 999, 123] \<and>
   items_of (Cursor_toArray (find demo (Callable (\<lambda>x. x = 123)) Absent) world0) =
     Success [123, 123] \<and>
   nextObject (Condition (Some (Source demo (Some [''bar'', ''baz'', ''qux'']))) (Callable (\<lambda>x. x = 123))) [] =
     (Item 123, Condition (Some (Source demo (Some []))) (Callable (\<lambda>x. x = 123)),
      [Read ''bar'', Read ''baz'', Read ''qux'']) \<and>
   nextObject (Condition (Some (Source demo (Some [''bar'', ''baz'']))) (Callable (\<lambda>x. x = 123))) [] =
     (Eof, Condition (Some (Source demo (Some []))) (Callable (\<lambda>x. x = 123)),
      [Read ''bar'', Read ''baz'']) \<and>
   nextObject (Condition (Some (Source demo (Some [''bar'', ''quux'', ''qux'']))) (Callable (\<lambda>x. x = 123))) [] =
     (Err (Backend ''not found''),
      Condition (Some (Source demo (Some [''qux'']))) (Callable (\<lambda>x. x = 123)),
      [Read ''bar'', Read ''quux''])"
proof -
  have st: "stores demo [''foo'', ''bar'', ''baz'', ''qux''] [123, 111, 999, 123]"
    by (simp add: stores_def demo_def)
  note c = Condition_filters[OF st, of "\<lambda>x. x = 123" world0]
  have bar: "\<And>ks lg. nextObject (Source demo (Some (''bar'' # ks))) lg =
      (Item 111, Source demo (Some ks), lg @ [Read ''bar''])"
    and baz: "\<And>ks lg. nextObject (Source demo (Some (''baz'' # ks))) lg =
      (Item 999, Source demo (Some ks), lg @ [Read ''baz''])"
    and qux: "\<And>ks lg. nextObject (Source demo (Some (''qux'' # ks))) lg =
      (Item 123, Source demo (Some ks), lg @ [Read ''qux''])"
    and quux: "\<And>ks lg. nextObject (Source demo (Some (''quux'' # ks))) lg =
      (Err (Backend ''not found''), Source demo (Some ks), lg @ [Read ''quux''])"
    and nil: "\<And>lg. nextObject (Source demo (Some [])) lg = (Eof, Source demo (Some []), lg)"
    by (simp_all add: demo_def)
  from c have skip: "\<And>(s :: (string, string, int) stage) lg x s' lg'.
       nextObject s lg = (Item x, s', lg') \<Longrightarrow> x \<noteq> 123 \<Longrightarrow>
       nextObject (Condition (Some s) (Callable (\<lambda>x. x = 123))) lg =
         nextObject (Condition (Some s') (Callable (\<lambda>x. x = 123))) lg'"
    by blast
  from c have pass: "\<And>(s :: (string, string, int) stage) lg s' lg'.
       nextObject s lg = (Item 123, s', lg') \<Longrightarrow>
       nextObject (Condition (Some s) (Callable (\<lambda>x. x = 123))) lg =
         (Item 123, Condition (Some s') (Callable (\<lambda>x. x = 123)), lg')"
    by blast
  from c have eof: "\<And>(s :: (string, string, int) stage) lg s' lg'.
       nextObject s lg = (Eof, s', lg') \<Longrightarrow>
       nextObject (Condition (Some s) (Callable (\<lambda>x. x = 123))) lg =
         (Eof, Condition (Some s') (Callable (\<lambda>x. x = 123)), lg')"
    by blast
  from c have err: "\<And>(s :: (string, string, int) stage) lg e s' lg'.
       nextObject s lg = (Err e, s', lg') \<Longrightarrow>
       nextObject (Condition (Some s) (Callable (\<lambda>x. x = 123))) lg =
         (Err e, Condition (Some s') (Callable (\<lambda>x. x = 123)), lg')"
    by blast
  have a: "nextObject (Condition (Some (Source demo (Some [''bar'', ''baz'', ''qux'']))) (Callable (\<lambda>x. x = 123))) [] =
     (Item 123, Condition (Some (Source demo (Some []))) (Callable (\<lambda>x. x = 123)),
      [Read ''bar'', Read ''baz'', Read ''qux''])"
    by (simp only: skip[OF bar] skip[OF baz] pass[OF qux] append.simps)
  have b: "nextObject (Condition (Some (Source demo (Some [''bar'', ''baz'']))) (Callable (\<lambda>x. x = 123))) [] =
     (Eof, Condition (Some (Source demo (Some []))) (Callable (\<lambda>x. x = 123)),
      [Read ''bar'', Read ''baz''])"
    by (simp only: skip[OF bar] skip[OF baz] eof[OF nil] append.simps)
  have d: "nextObject (Condition (Some (Source demo (Some [''bar'', ''quux'', ''qux'']))) (Callable (\<lambda>x. x = 123))) [] =
     (Err (Backend ''not found''),
      Condition (Some (Source demo (Some [''qux'']))) (Callable (\<lambda>x. x = 123)),
      [Read ''bar'', Read ''quux''])"
    by (simp only: skip[OF bar] err[OF quux] append.simps)
  from c[THEN conjunct1]
  have "items_of (Cursor_toArray (find demo (Callable (\<lambda>x. x = 123)) Absent) world0) =
     Success [123, 123]" by simp
  with st a b d show ?thesis by blast
qed

text \<open>
  C3. For every backing set of \<open>N\<close> items and every \<open>k \<ge> 0\<close>,
  \<^verbatim>\<open>find().offset(k).toArray()\<close> yields the full ordering without its first \<open>k\<close> items,
  that is \<open>max 0 (N - k)\<close> items; for \<open>k \<ge> N\<close> the result is the empty list and no
  error, and every \<^verbatim>\<open>nextObject\<close> call of the Offset stage, the first one that runs into
  the end while discarding and all later ones, signals the end of the sequence.
\<close>

theorem Offset_drops:
  fixes coll :: "('e, 'k, 'a) collection"
  assumes "stores coll ks xs" and "0 \<le> k"
  shows "source (Cursor_offset (find coll Absent Absent) k) =
           Some (Offset (Some (Source coll None)) k False) \<and>
         items_of (Cursor_toArray (Cursor_offset (find coll Absent Absent) k) w) =
           Success (drop (nat k) xs) \<and>
         int (length (drop (nat k) xs)) = max 0 (int (length xs) - k) \<and>
         (int (length xs) \<le> k \<longrightarrow>
            items_of (Cursor_toArray (Cursor_offset (find coll Absent Absent) k) w) = Success [] \<and>
            (\<forall>n lg. fst (pulls n (Offset (Some (Source coll None)) k False) lg) = replicate n Eof))"
proof -
  have src: "source (Cursor_offset (find coll Absent Absent) k) =
           Some (Offset (Some (Source coll None)) k False)"
    by (simp add: Cursor_offset_def find_plain)
  have memo: "memo_toArray (Cursor_offset (find coll Absent Absent) k) = None"
    by (simp add: Cursor_offset_def)
  have arr: "items_of (Cursor_toArray (Cursor_offset (find coll Absent Absent) k) w) =
           Success (drop (nat k) xs)"
    by (simp add: Cursor_toArray_fresh(1)[OF memo] src toArray_Offset_start[OF assms(1)])
  have len: "int (length (drop (nat k) xs)) = max 0 (int (length xs) - k)"
    using assms(2) by auto
  have "int (length xs) \<le> k \<Longrightarrow> drop (nat k) xs = []" by simp
  with arr src len pulls_Offset_beyond[OF assms(1)] show ?thesis by simp
qed

theorem Offset_drops_witness:
  "stores demo [''foo'', ''bar'', ''baz'', ''qux''] [123, 111, 999, 123] \<and>
   items_of (Cursor_toArray (Cursor_offset (find demo Absent Absent) 2) world0) =
     Success [999, 123] \<and>
   items_of (Cursor_toArray (Cursor_offset (find demo Absent Absent) 1000) world0) = Success [] \<and>
   fst (pulls 3 (Offset (Some (Source demo None)) 1000 False) []) = [Eof, Eof, Eof]"
proof -
  have st: "stores demo [''foo'', ''bar'', ''baz'', ''qux''] [123, 111, 999, 123]"
    by (simp add: stores_def demo_def)
  have "fst (pulls 3 (Offset (Some (Source demo None)) 1000 False) []) = replicate 3 Eof"
    using Offset_drops[OF st, of 1000 world0] by simp
  then show ?thesis
    using st Offset_drops[OF st, of 2 world0] Offset_drops[OF st, of 1000 world0]
    by (simp add: numeral_3_eq_3)
qed

text \<open>
  C4. For every backing set of \<open>N\<close> items and every \<open>k \<ge> 0\<close>,
  \<^verbatim>\<open>find().limit(k).toArray()\<close> yields the first \<open>min N k\<close> items of the full ordering,
  reading only those from the storage. Over any upstream, a Limit stage hands out at most
  \<open>k\<close> items in any run of calls; after \<open>k\<close> calls its counter is \<open>0\<close>, and from then on
  every call signals the end of the sequence and leaves the upstream and the storage
  untouched.
\<close>

theorem Limit_caps:
  fixes coll :: "('e, 'k, 'a) collection"
  assumes "stores coll ks xs" and "0 \<le> k"
  shows "source (Cursor_limit (find coll Absent Absent) k) =
           Some (Limit (Some (Source coll None)) k k) \<and>
         items_of (Cursor_toArray (Cursor_limit (find coll Absent Absent) k) w) =
           Success (take (nat k) xs) \<and>
         length (take (nat k) xs) = min (length xs) (nat k) \<and>
         calls (snd (snd (Cursor_toArray (Cursor_limit (find coll Absent Absent) k) w))) =
           (if 0 < k then calls w @ Index # map Read (take (nat k) ks) else calls w) \<and>
         (\<forall>(src :: ('e, 'k, 'a) stage option) n lg.
            length (served (fst (pulls n (Limit src k k) lg))) \<le> nat k) \<and>
         (\<forall>(s :: ('e, 'k, 'a) stage) lg.
            \<exists>s'. fst (snd (pulls (nat k) (Limit (Some s) k k) lg)) = Limit (Some s') k 0) \<and>
         (\<forall>(src :: ('e, 'k, 'a) stage option) m lg.
            pulls m (Limit src k 0) lg = (replicate m Eof, Limit src k (- int m), lg))"
proof -
  have src: "source (Cursor_limit (find coll Absent Absent) k) =
           Some (Limit (Some (Source coll None)) k k)"
    by (simp add: Cursor_limit_def find_plain)
  have memo: "memo_toArray (Cursor_limit (find coll Absent Absent) k) = None"
    by (simp add: Cursor_limit_def)
  have arr: "items_of (Cursor_toArray (Cursor_limit (find coll Absent Absent) k) w) =
           Success (take (nat k) xs)"
    by (simp add: Cursor_toArray_fresh(1)[OF memo] src toArray_Limit_start(1)[OF assms(1)])
  have lg: "calls (snd (snd (Cursor_toArray (Cursor_limit (find coll Absent Absent) k) w))) =
           (if 0 < k then calls w @ Index # map Read (take (nat k) ks) else calls w)"
    by (simp add: Cursor_toArray_fresh(2)[OF memo] src toArray_Limit_start(2)[OF assms(1)])
  have rest: "\<exists>s'. fst (snd (pulls (nat k) (Limit (Some s) k k) lg)) = Limit (Some s') k 0"
    for s :: "('e, 'k, 'a) stage" and lg
    using pulls_Limit_rest[of "nat k" k s k lg] assms(2) by simp
  have spent: "pulls m (Limit src k 0) lg = (replicate m Eof, Limit src k (- int m), lg)"
    for src :: "('e, 'k, 'a) stage option" and m lg
    using pulls_Limit_spent[of 0 m src k lg] by simp
  have most: "length (served (fst (pulls n (Limit src k k) lg))) \<le> nat k"
    for src :: "('e, 'k, 'a) stage option" and n lg
    by (rule served_pulls_Limit)
  from src arr lg rest spent most show ?thesis
    by (simp add: min.commute)
qed

theorem Limit_caps_witness:
  "stores demo [''foo'', ''bar'', ''baz'', ''qux''] [123, 111, 999, 123] \<and>
   items_of (Cursor_toArray (Cursor_limit (find demo Absent Absent) 2) world0) =
     Success [123, 111] \<and>
   calls (snd (snd (Cursor_toArray (Cursor_limit (find demo Absent Absent) 2) world0))) =
     [Index, Read ''foo'', Read ''bar''] \<and>
   items_of (Cursor_toArray (Cursor_limit (find demo Absent Absent) 1000) world0) =
     Success [123, 111, 999, 123] \<and>
   pulls 2 (Limit (Some (Source demo (Some [''baz'']))) 2 0) [] =
     ([Eof, Eof], Limit (Some (Source demo (Some [''baz'']))) 2 (- 2), [])"
proof -
  have st: "stores demo [''foo'', ''bar'', ''baz'', ''qux''] [123, 111, 999, 123]"
    by (simp add: stores_def demo_def)
  note lc = Limit_caps[OF st zero_le_numeral, of _ world0]
  have "pulls 2 (Limit (Some (Source demo (Some [''baz'']))) 2 0) [] =
     (replicate 2 Eof, Limit (Some (Source demo (Some [''baz'']))) 2 (- int 2), [])"
    using lc[of "num.Bit0 num.One"] by blast
  then have two: "pulls 2 (Limit (Some (Source demo (Some [''baz'']))) 2 0) [] =
     ([Eof, Eof], Limit (Some (Source demo (Some [''baz'']))) 2 (- 2), [])"
    by (simp add: numeral_2_eq_2)
  have a: "take (nat 2) [123, 111, 999, 123::int] = [123, 111]"
    and b: "take (nat 2) [''foo'', ''bar'', ''baz'', ''qux''] = [''foo'', ''bar'']"
    by (simp_all add: numeral_2_eq_2)
  show ?thesis
    using st two lc[of "num.Bit0 num.One"] Limit_caps[OF st, of 1000 world0]
    by (simp add: world0_def a b)
qed

text \<open>
  C5. The comparator of an object-form sort specification is \<open>SortOp_parser\<close>. For
  every such specification, \<^verbatim>\<open>find().sort(spec).toArray()\<close> over a backing set is a
  rearrangement of the full ordering that is ordered by the comparator. With a single
  ascending field the values of that field are non-decreasing across the result, with a
  single descending field non-increasing, and with several keys the result is ordered by
  the first key in its direction and items that tie on it are ordered by the remaining
  keys. The first \<^verbatim>\<open>nextObject\<close> call of a Sort stage drains the whole upstream (every id
  is read), sorts the buffer with the comparator and hands out its first item; with the
  buffer filled, calls hand out its items one at a time and leave the upstream and the
  storage untouched.
\<close>

theorem Sort_orders:
  fixes coll :: "('e, 'k, 'f \<Rightarrow> 'v::linorder) collection"
  assumes "stores coll ks xs"
  shows "items_of (Cursor_toArray (Cursor_sort (find coll Absent Absent) (SortOp_parser spec)) w) =
           Success (Array_sort (SortOp_parser spec) xs) \<and>
         mset (Array_sort (SortOp_parser spec) xs) = mset xs \<and>
         sorted_wrt (\<lambda>a b. SortOp_parser spec a b \<le> 0) (Array_sort (SortOp_parser spec) xs) \<and>
         (\<forall>f. spec = [(f, Ascending)] \<longrightarrow>
            sorted (map (\<lambda>x. x f) (Array_sort (SortOp_parser spec) xs))) \<and>
         (\<forall>f. spec = [(f, Descending)] \<longrightarrow>
            sorted (rev (map (\<lambda>x. x f) (Array_sort (SortOp_parser spec) xs)))) \<and>
         (\<forall>f d rest. spec = (f, d) # rest \<longrightarrow>
            sorted_wrt (\<lambda>a b. (d = Ascending \<longrightarrow> a f \<le> b f) \<and> (d = Descending \<longrightarrow> b f \<le> a f) \<and>
                            (a f = b f \<longrightarrow> SortOp_parser rest a b \<le> 0))
              (Array_sort (SortOp_parser spec) xs)) \<and>
         (\<forall>sorter lg. nextObject (Sort (Some (Source coll None)) sorter None) lg =
            (case Array_sort sorter xs of [] \<Rightarrow> Eof | x # rest \<Rightarrow> Item x,
             Sort (Some (Source coll (Some []))) sorter (Some (tl (Array_sort sorter xs))),
             lg @ Index # map Read ks)) \<and>
         (\<forall>(src :: ('e, 'k, 'f \<Rightarrow> 'v) stage option) sorter buf n lg.
            pulls n (Sort src sorter (Some buf)) lg =
            (map Item (take n buf) @ replicate (n - length buf) Eof,
             Sort src sorter (Some (drop n buf)), lg))"
proof -
  let ?res = "Array_sort (SortOp_parser spec) xs"
  have memo: "memo_toArray (Cursor_sort (find coll Absent Absent) (SortOp_parser spec)) = None"
    and src: "source (Cursor_sort (find coll Absent Absent) (SortOp_parser spec)) =
        Some (Sort (Some (Source coll None)) (SortOp_parser spec) None)"
    by (simp_all add: Cursor_sort_def find_plain)
  have arr: "items_of (Cursor_toArray (Cursor_sort (find coll Absent Absent) (SortOp_parser spec)) w) =
           Success ?res"
    by (simp add: Cursor_toArray_fresh(1)[OF memo] src toArray_Sort_start(2)[OF assms])
  have ordered: "sorted_wrt (\<lambda>a b. SortOp_parser spec a b \<le> 0) ?res"
    by (rule sorted_by_spec)
  have asc: "sorted (map (\<lambda>x. x f) ?res)" if "spec = [(f, Ascending)]" for f
  proof -
    have "sorted_wrt (\<lambda>a b. a f \<le> b f) ?res"
      by (rule sorted_wrt_mono_rel[OF _ ordered]) (auto simp: that split: if_splits)
    then show ?thesis by (simp add: sorted_map)
  qed
  have desc: "sorted (rev (map (\<lambda>x. x f) ?res))" if "spec = [(f, Descending)]" for f
  proof -
    have "sorted_wrt (\<lambda>a b. b f \<le> a f) ?res"
      by (rule sorted_wrt_mono_rel[OF _ ordered]) (auto simp: that split: if_splits)
    then show ?thesis by (simp add: sorted_wrt_rev sorted_wrt_map rev_map[symmetric])
  qed
  have ties: "sorted_wrt (\<lambda>a b. (d = Ascending \<longrightarrow> a f \<le> b f) \<and> (d = Descending \<longrightarrow> b f \<le> a f) \<and>
                            (a f = b f \<longrightarrow> SortOp_parser rest a b \<le> 0)) ?res"
    if "spec = (f, d) # rest" for f d rest
    by (rule sorted_wrt_mono_rel[OF _ ordered])
       (cases d; auto simp: that split: if_splits)
  have drain: "nextObject (Sort (Some (Source coll None)) sorter None) lg =
            (case Array_sort sorter xs of [] \<Rightarrow> Eof | x # rest \<Rightarrow> Item x,
             Sort (Some (Source coll (Some []))) sorter (Some (tl (Array_sort sorter xs))),
             lg @ Index # map Read ks)" for sorter lg
    by (rule toArray_Sort_start(1)[OF assms])
  have serve: "pulls n (Sort src sorter (Some buf)) lg =
            (map Item (take n buf) @ replicate (n - length buf) Eof,
             Sort src sorter (Some (drop n buf)), lg)"
    for src :: "('e, 'k, 'f \<Rightarrow> 'v) stage option" and sorter buf n lg
    by (rule pulls_Sort_buffer)
  from arr ordered asc desc ties drain serve show ?thesis
    by (simp add: mset_Array_sort)
qed

theorem Sort_orders_witness:
  "stores catalog [''foo'', ''bar'', ''baz'', ''qux''] [foo_item, bar_item, baz_item, qux_item] \<and>
   items_of (Cursor_toArray
      (Cursor_sort (find catalog Absent Absent)
         (SortOp_parser [(''numeric'', Ascending), (''decimal'', Ascending)])) world0) =
     Success [baz_item, bar_item, foo_item, qux_item] \<and>
   items_of (Cursor_toArray
      (Cursor_sort (find catalog Absent Absent) (SortOp_parser [(''decimal'', Descending)])) world0) =
     Success [baz_item, foo_item, qux_item, bar_item] \<and>
   map (\<lambda>x. x ''decimal'') [baz_item, foo_item, qux_item, bar_item] = [999, 123, 123, 111] \<and>
   fst (nextObject (Sort (Some (Source catalog None)) (SortOp_parser [(''decimal'', Ascending)]) None) []) =
     Item bar_item \<and>
   snd (snd (nextObject (Sort (Some (Source catalog None)) (SortOp_parser [(''decimal'', Ascending)]) None) [])) =
     [Index, Read ''foo'', Read ''bar'', Read ''baz'', Read ''qux'']"
proof -
  have st: "stores catalog [''foo'', ''bar'', ''baz'', ''qux''] [foo_item, bar_item, baz_item, qux_item]"
    by (simp add: stores_def catalog_def)
  have a: "Array_sort (SortOp_parser [(''numeric'', Ascending), (''decimal'', Ascending)])
             [foo_item, bar_item, baz_item, qux_item] = [baz_item, bar_item, foo_item, qux_item]"
    by (simp add: Array_sort_def foo_item_def bar_item_def baz_item_def qux_item_def)
  have d: "Array_sort (SortOp_parser [(''decimal'', Descending)])
             [foo_item, bar_item, baz_item, qux_item] = [baz_item, foo_item, qux_item, bar_item]"
    by (simp add: Array_sort_def foo_item_def bar_item_def baz_item_def qux_item_def)
  have u: "Array_sort (SortOp_parser [(''decimal'', Ascending)])
             [foo_item, bar_item, baz_item, qux_item] = [bar_item, foo_item, qux_item, baz_item]"
    by (simp add: Array_sort_def foo_item_def bar_item_def baz_item_def qux_item_def)
  have m: "map (\<lambda>x. x ''decimal'') [baz_item, foo_item, qux_item, bar_item] = [999, 123, 123, 111]"
    by (simp add: foo_item_def bar_item_def baz_item_def qux_item_def)
  note s1 = Sort_orders[OF st, of "[(''numeric'', Ascending), (''decimal'', Ascending)]" world0]
  note s2 = Sort_orders[OF st, of "[(''decimal'', Descending)]" world0]
  from s1 have drain: "nextObject (Sort (Some (Source catalog None)) (SortOp_parser [(''decimal'', Ascending)]) None) [] =
      (case Array_sort (SortOp_parser [(''decimal'', Ascending)]) [foo_item, bar_item, baz_item, qux_item] of
         [] \<Rightarrow> Eof | x # rest \<Rightarrow> Item x,
       Sort (Some (Source catalog (Some []))) (SortOp_parser [(''decimal'', Ascending)])
         (Some (tl (Array_sort (SortOp_parser [(''decimal'', Ascending)]) [foo_item, bar_item, baz_item, qux_item]))),
       [] @ Index # map Read [''foo'', ''bar'', ''baz'', ''qux''])"
    by blast
  have f: "fst (nextObject (Sort (Some (Source catalog None)) (SortOp_parser [(''decimal'', Ascending)]) None) []) =
     Item bar_item"
    unfolding drain u by simp
  have l: "snd (snd (nextObject (Sort (Some (Source catalog None)) (SortOp_parser [(''decimal'', Ascending)]) None) [])) =
     [Index, Read ''foo'', Read ''bar'', Read ''baz'', Read ''qux'']"
    unfolding drain by simp
  from s1[THEN conjunct1] s2[THEN conjunct1] have
    "items_of (Cursor_toArray
      (Cursor_sort (find catalog Absent Absent)
         (SortOp_parser [(''numeric'', Ascending), (''decimal'', Ascending)])) world0) =
     Success [baz_item, bar_item, foo_item, qux_item]"
    "items_of (Cursor_toArray
      (Cursor_sort (find catalog Absent Absent) (SortOp_parser [(''decimal'', Descending)])) world0) =
     Success [baz_item, foo_item, qux_item, bar_item]"
    by (simp_all only: a d)
  with st m f l show ?thesis by (intro conjI)
qed

text \<open>
  C6. Two \<^verbatim>\<open>toArray\<close> calls on a cursor with no \<^verbatim>\<open>rewind\<close> between them hand the
  callback two different arrays with the same elements, also when the caller has
  overwritten the first array before the second call. The second call is answered from the
  memoized array without a storage call, and the memoized array is neither of the arrays
  handed out: writing to either leaves the other and the memo as they are. (The cursor's
  references are references to allocated arrays.)
\<close>

theorem toArray_returns_copies:
  fixes c :: "('e, 'k, 'a) cursor"
  assumes valid: "\<forall>m. memo_toArray c = Some m \<longrightarrow> m < top (item_arrays w)"
    and first: "Cursor_toArray c w = (Success a1, c1, w1)"
    and second: "Cursor_toArray c1
        (w1\<lparr>item_arrays := (item_arrays w1)\<lparr>cells := (cells (item_arrays w1))(a1 := ys)\<rparr>\<rparr>) =
        (r2, c2, w2)"
  shows "\<exists>a2 m. r2 = Success a2 \<and> a2 \<noteq> a1 \<and>
           cells (item_arrays w2) a2 = cells (item_arrays w1) a1 \<and>
           cells (item_arrays w2) a1 = ys \<and>
           (\<forall>zs. ((cells (item_arrays w2))(a2 := zs)) a1 = ys) \<and>
           memo_toArray c1 = Some m \<and> memo_toArray c2 = Some m \<and> m \<noteq> a1 \<and> m \<noteq> a2 \<and>
           cells (item_arrays w2) m = cells (item_arrays w1) a1 \<and>
           calls w2 = calls w1"
proof (cases "memo_toArray c")
  case None
  obtain r src1 lg1 where t: "toArray (source c) (calls w) = (r, src1, lg1)"
    by (cases "toArray (source c) (calls w)") auto
  from first None t obtain buf where r: "r = Success buf"
    by (cases r) (auto simp: Cursor_toArray_def clone_def alloc_def)
  from first None t r have
    "a1 = Suc (top (item_arrays w))"
    "memo_toArray c1 = Some (top (item_arrays w))"
    "top (item_arrays w1) = Suc (Suc (top (item_arrays w)))"
    "cells (item_arrays w1) a1 = buf"
    "cells (item_arrays w1) (top (item_arrays w)) = buf"
    "calls w1 = lg1"
    by (auto simp: Cursor_toArray_def clone_def alloc_def)
  with second show ?thesis
    by (auto simp: Cursor_toArray_def clone_def alloc_def)
next
  case (Some m)
  with valid have m: "m < top (item_arrays w)" by simp
  from first Some have
    "a1 = top (item_arrays w)" "c1 = c"
    "top (item_arrays w1) = Suc (top (item_arrays w))"
    "cells (item_arrays w1) a1 = cells (item_arrays w) m"
    "cells (item_arrays w1) m = cells (item_arrays w) m"
    using m by (auto simp: Cursor_toArray_def clone_def alloc_def)
  with second Some m show ?thesis
    by (auto simp: Cursor_toArray_def clone_def alloc_def)
qed

theorem toArray_returns_copies_witness:
  "fst listed_once = Success 1 \<and>
   cells (item_arrays (snd (snd listed_once))) 1 = [123, 111, 999, 123] \<and>
   fst (Cursor_toArray (fst (snd listed_once)) scribbled) = Success 2 \<and>
   items_of (Cursor_toArray (fst (snd listed_once)) scribbled) = Success [123, 111, 999, 123] \<and>
   cells (item_arrays (snd (snd (Cursor_toArray (fst (snd listed_once)) scribbled)))) 1 = [] \<and>
   calls (snd (snd (Cursor_toArray (fst (snd listed_once)) scribbled))) =
     [Index, Read ''foo'', Read ''bar'', Read ''baz'', Read ''qux'']"
proof -
  have valid: "\<forall>m. memo_toArray (find demo Absent Absent) = Some m \<longrightarrow>
      m < top (item_arrays (world0 :: (string, int) world))"
    by simp
  have first: "Cursor_toArray (find demo Absent Absent) world0 =
      (Success 1, fst (snd listed_once), snd (snd listed_once))"
    using listed_once_value by (simp add: listed_once_def)
  obtain r2 c2 w2 where second: "Cursor_toArray (fst (snd listed_once)) scribbled = (r2, c2, w2)"
    by (cases "Cursor_toArray (fst (snd listed_once)) scribbled") auto
  from toArray_returns_copies[OF valid first second[unfolded scribbled_def]]
  obtain a2 where a2: "r2 = Success a2" "cells (item_arrays w2) a2 = cells (item_arrays (snd (snd listed_once))) 1"
    "cells (item_arrays w2) 1 = []" "calls w2 = calls (snd (snd listed_once))"
    by blast
  have "fst (Cursor_toArray (fst (snd listed_once)) scribbled) = Success 2"
    by (simp add: scribbled_def listed_once_value Cursor_toArray_def clone_def alloc_def)
  with a2 second show ?thesis
    by (simp add: listed_once_value items_of_def)
qed

text \<open>
  C7, as amended. When a condition or projection argument could not be normalized into a
  callable, the constructor still builds the chain with it: nothing is raised at
  construction. The Condition or Projection stage that holds it answers every
  \<^verbatim>\<open>nextObject\<close> call it receives with the InvalidSpecError, makes no storage call and
  stays as it is. So a \<^verbatim>\<open>nextObject\<close> call on a cursor reports the error whenever it
  reaches that stage, the first time and every later time, and leaves the world as it
  was; on a cursor as \<^verbatim>\<open>find\<close> returns it every call does, and leaves the cursor as it
  was. With a non-callable projection, the projection's error is the one reported.
\<close>

theorem InvalidSpec_every_call:
  fixes coll :: "('e, 'k, 'a) collection"
  shows
   "source (find coll NotCallable Absent) =
      Some (Condition (Some (Source coll None)) NotCallable) \<and>
    source (find coll Absent NotCallable) =
      Some (Projection (Some (Source coll None)) NotCallable) \<and>
    (\<forall>(src :: ('e, 'k, 'a) stage option) lg.
       nextObject (Condition src NotCallable) lg =
         (Err InvalidCondition, Condition src NotCallable, lg)) \<and>
    (\<forall>(src :: ('e, 'k, 'a) stage option) lg.
       nextObject (Projection src NotCallable) lg =
         (Err InvalidProjection, Projection src NotCallable, lg)) \<and>
    (\<forall>(c :: ('e, 'k, 'a) cursor) s e w.
       source c = Some s \<and> invalid_ahead s = Some e \<longrightarrow>
       fst (Cursor_nextObject c w) = Err e \<and>
       snd (snd (Cursor_nextObject c w)) = w) \<and>
    (\<forall>condition projection w.
       condition = NotCallable \<or> projection = NotCallable \<longrightarrow>
       (\<exists>s. source (find coll condition projection) = Some s \<and>
            invalid_ahead s =
              Some (if projection = NotCallable then InvalidProjection else InvalidCondition)) \<and>
       Cursor_nextObject (find coll condition projection) w =
         (Err (if projection = NotCallable then InvalidProjection else InvalidCondition),
          find coll condition projection, w))"
proof -
  have reach: "fst (Cursor_nextObject c w) = Err e \<and> snd (snd (Cursor_nextObject c w)) = w"
    if "source c = Some s" "invalid_ahead s = Some e"
    for c :: "('e, 'k, 'a) cursor" and s e w
  proof -
    from invalid_ahead_pull[OF that(2), of "calls w"]
    obtain s' where "nextObject s (calls w) = (Err e, s', calls w)" by blast
    with that(1) show ?thesis by (simp add: Cursor_nextObject_def)
  qed
  have fresh: "(\<exists>s. source (find coll condition projection) = Some s \<and>
            invalid_ahead s =
              Some (if projection = NotCallable then InvalidProjection else InvalidCondition)) \<and>
       Cursor_nextObject (find coll condition projection) w =
         (Err (if projection = NotCallable then InvalidProjection else InvalidCondition),
          find coll condition projection, w)"
    if "condition = NotCallable \<or> projection = NotCallable" for condition projection w
    using invalid_ahead_find[OF that, of coll]
      Cursor_nextObject_find_invalid[OF that, of coll w] by blast
  have built: "source (find coll NotCallable Absent) =
      Some (Condition (Some (Source coll None)) NotCallable)"
    "source (find coll Absent NotCallable) =
      Some (Projection (Some (Source coll None)) NotCallable)"
    by (simp_all add: find_def Cursor_def)
  have stage: "nextObject (Condition src NotCallable) lg =
         (Err InvalidCondition, Condition src NotCallable, lg)"
    "nextObject (Projection src NotCallable) lg =
         (Err InvalidProjection, Projection src NotCallable, lg)"
    for src :: "('e, 'k, 'a) stage option" and lg
    by simp_all
  from built stage reach fresh show ?thesis by blast
qed

theorem InvalidSpec_every_call_witness:
  "source (Cursor_limit (find demo NotCallable Absent) 1) =
     Some (Limit (Some (Condition (Some (Source demo None)) NotCallable)) 1 1) \<and>
   invalid_ahead (Limit (Some (Condition (Some (Source demo None)) NotCallable)) 1 1) =
     Some (InvalidCondition :: string error) \<and>
   fst (Cursor_nextObject (Cursor_limit (find demo NotCallable Absent) 1) world0) =
     Err InvalidCondition \<and>
   snd (snd (Cursor_nextObject (Cursor_limit (find demo NotCallable Absent) 1) world0)) = world0 \<and>
   fst (Cursor_nextObject
          (fst (snd (Cursor_nextObject (Cursor_limit (find demo NotCallable Absent) 1) world0)))
          world0) = Eof \<and>
   Cursor_nextObject (find demo NotCallable Absent) world0 =
     (Err InvalidCondition, find demo NotCallable Absent, world0)"
proof -
  have src: "source (Cursor_limit (find demo NotCallable Absent) 1) =
     Some (Limit (Some (Condition (Some (Source demo None)) NotCallable)) 1 1)"
    by (simp add: Cursor_limit_def find_def Cursor_def)
  have ahead: "invalid_ahead (Limit (Some (Condition (Some (Source demo None)) NotCallable)) 1 1) =
     Some (InvalidCondition :: string error)"
    by simp
  have spent: "fst (Cursor_nextObject
          (fst (snd (Cursor_nextObject (Cursor_limit (find demo NotCallable Absent) 1) world0)))
          world0) = Eof"
    by (simp add: Cursor_limit_def find_def Cursor_def Cursor_nextObject_def world0_def)
  note t = InvalidSpec_every_call[where coll = demo]
  from t src ahead have
    "fst (Cursor_nextObject (Cursor_limit (find demo NotCallable Absent) 1) world0) =
       Err InvalidCondition \<and>
     snd (snd (Cursor_nextObject (Cursor_limit (find demo NotCallable Absent) 1) world0)) = world0"
    by blast
  moreover from t have "Cursor_nextObject (find demo NotCallable Absent) world0 =
     (Err InvalidCondition, find demo NotCallable Absent, world0)"
    by simp
  ultimately show ?thesis using src ahead spent by blast
qed

text \<open>
  C7 as stated says that the error surfaces only once per cursor. On the test collection
  with a non-callable condition, the first \<^verbatim>\<open>nextObject\<close> call reports it and the second
  call on the same cursor reports it again.
\<close>

theorem InvalidSpec_surfaces_again_counterexample:
  "fst (Cursor_nextObject (find demo NotCallable Absent) world0) = Err InvalidCondition \<and>
   fst (Cursor_nextObject
          (fst (snd (Cursor_nextObject (find demo NotCallable Absent) world0)))
          (snd (snd (Cursor_nextObject (find demo NotCallable Absent) world0)))) =
     Err InvalidCondition"
  by (simp add: find_def Cursor_def Cursor_nextObject_def)



text \<open>
  C9. \<^verbatim>\<open>sort\<close>, \<^verbatim>\<open>offset\<close>, \<^verbatim>\<open>limit\<close> and \<^verbatim>\<open>rewind\<close> leave both memo fields
  of a cursor as they are. Once \<^verbatim>\<open>toArray\<close> (or \<^verbatim>\<open>index\<close>) has succeeded on a cursor,
  then at every later moment, whatever methods were called in between, a \<^verbatim>\<open>toArray\<close>
  (\<^verbatim>\<open>index\<close>) call is answered with the elements of the memoized array, which are
  those of the first result, makes no storage call and leaves the cursor as it is.
\<close>

theorem memo_survives_restructuring:
  fixes c1 c2 :: "('e, 'k, 'a) cursor"
  assumes "later_on c1 c2"
  shows
   "(\<forall>order. memo_toArray (Cursor_sort c2 order) = memo_toArray c2 \<and>
             memo_index (Cursor_sort c2 order) = memo_index c2) \<and>
    (\<forall>offset. memo_toArray (Cursor_offset c2 offset) = memo_toArray c2 \<and>
              memo_index (Cursor_offset c2 offset) = memo_index c2) \<and>
    (\<forall>limit. memo_toArray (Cursor_limit c2 limit) = memo_toArray c2 \<and>
             memo_index (Cursor_limit c2 limit) = memo_index c2) \<and>
    memo_toArray (snd (Cursor_rewind c2)) = memo_toArray c2 \<and>
    memo_index (snd (Cursor_rewind c2)) = memo_index c2 \<and>
    (\<forall>c (w :: ('k, 'a) world) a w1. Cursor_toArray c w = (Success a, c1, w1) \<longrightarrow>
       (\<exists>m. memo_toArray c1 = Some m \<and> memo_toArray c2 = Some m \<and>
            cells (item_arrays w1) m = cells (item_arrays w1) a \<and>
            (\<forall>w2 :: ('k, 'a) world.
               items_of (Cursor_toArray c2 w2) = Success (cells (item_arrays w2) m) \<and>
               calls (snd (snd (Cursor_toArray c2 w2))) = calls w2 \<and>
               fst (snd (Cursor_toArray c2 w2)) = c2))) \<and>
    (\<forall>c (w :: ('k, 'a) world) a w1. Cursor_index c w = (Success a, c1, w1) \<longrightarrow>
       (\<exists>m. memo_index c1 = Some m \<and> memo_index c2 = Some m \<and>
            cells (id_arrays w1) m = cells (id_arrays w1) a \<and>
            (\<forall>w2 :: ('k, 'a) world.
               ids_of (Cursor_index c2 w2) = Success (cells (id_arrays w2) m) \<and>
               calls (snd (snd (Cursor_index c2 w2))) = calls w2 \<and>
               fst (snd (Cursor_index c2 w2)) = c2)))"
proof -
  note keep = memo_later_on[OF assms]
  have frame: "(\<forall>order. memo_toArray (Cursor_sort c2 order) = memo_toArray c2 \<and>
             memo_index (Cursor_sort c2 order) = memo_index c2) \<and>
    (\<forall>offset. memo_toArray (Cursor_offset c2 offset) = memo_toArray c2 \<and>
              memo_index (Cursor_offset c2 offset) = memo_index c2) \<and>
    (\<forall>limit. memo_toArray (Cursor_limit c2 limit) = memo_toArray c2 \<and>
             memo_index (Cursor_limit c2 limit) = memo_index c2) \<and>
    memo_toArray (snd (Cursor_rewind c2)) = memo_toArray c2 \<and>
    memo_index (snd (Cursor_rewind c2)) = memo_index c2"
    by (simp add: Cursor_sort_def Cursor_offset_def Cursor_limit_def memo_after_rewind)
  have items: "\<exists>m. memo_toArray c1 = Some m \<and> memo_toArray c2 = Some m \<and>
            cells (item_arrays w1) m = cells (item_arrays w1) a \<and>
            (\<forall>w2 :: ('k, 'a) world.
               items_of (Cursor_toArray c2 w2) = Success (cells (item_arrays w2) m) \<and>
               calls (snd (snd (Cursor_toArray c2 w2))) = calls w2 \<and>
               fst (snd (Cursor_toArray c2 w2)) = c2)"
    if "Cursor_toArray c w = (Success a, c1, w1)" for c and w :: "('k, 'a) world" and a w1
  proof -
    from Cursor_toArray_sets_memo[OF that] obtain m where
      m: "memo_toArray c1 = Some m" "cells (item_arrays w1) m = cells (item_arrays w1) a"
      by blast
    then have "memo_toArray c2 = Some m" using keep by simp
    with m Cursor_toArray_cached[OF this] show ?thesis by simp
  qed
  have ids: "\<exists>m. memo_index c1 = Some m \<and> memo_index c2 = Some m \<and>
            cells (id_arrays w1) m = cells (id_arrays w1) a \<and>
            (\<forall>w2 :: ('k, 'a) world.
               ids_of (Cursor_index c2 w2) = Success (cells (id_arrays w2) m) \<and>
               calls (snd (snd (Cursor_index c2 w2))) = calls w2 \<and>
               fst (snd (Cursor_index c2 w2)) = c2)"
    if "Cursor_index c w = (Success a, c1, w1)" for c and w :: "('k, 'a) world" and a w1
  proof -
    from Cursor_index_sets_memo[OF that] obtain m where
      m: "memo_index c1 = Some m" "cells (id_arrays w1) m = cells (id_arrays w1) a"
      by blast
    then have "memo_index c2 = Some m" using keep by simp
    with m Cursor_index_cached[OF this] show ?thesis by simp
  qed
  from frame items ids show ?thesis by blast
qed

theorem memo_survives_restructuring_witness:
  "later_on (fst (snd listed_once)) restructured_cursor \<and>
   source restructured_cursor = Some (Limit (Some (Source demo None)) 1 1) \<and>
   items_of (Cursor_toArray restructured_cursor (snd (snd listed_once))) =
     Success [123, 111, 999, 123] \<and>
   calls (snd (snd (Cursor_toArray restructured_cursor (snd (snd listed_once))))) =
     [Index, Read ''foo'', Read ''bar'', Read ''baz'', Read ''qux''] \<and>
   memo_toArray restructured_cursor = Some 0"
proof -
  have r: "later_on (fst (snd listed_once)) restructured_cursor"
    unfolding restructured_cursor_def by (intro later_on.intros)
  have first: "Cursor_toArray (find demo Absent Absent) world0 =
      (Success 1, fst (snd listed_once), snd (snd listed_once))"
    using listed_once_value by (simp add: listed_once_def)
  have memo: "memo_toArray (fst (snd listed_once)) = Some 0"
    by (simp add: listed_once_value)
  from memo_survives_restructuring[OF r] first
  obtain m where m: "memo_toArray (fst (snd listed_once)) = Some m"
    "memo_toArray restructured_cursor = Some m"
    "\<forall>w2. items_of (Cursor_toArray restructured_cursor w2) = Success (cells (item_arrays w2) m) \<and>
       calls (snd (snd (Cursor_toArray restructured_cursor w2))) = calls w2"
    by blast
  from memo m(1) have m0: "m = 0" by simp
  have src: "source restructured_cursor = Some (Limit (Some (Source demo None)) 1 1)"
    by (simp add: restructured_cursor_def listed_once_value Cursor_limit_def Cursor_rewind_def)
  from m(3)[rule_format, of "snd (snd listed_once)"] m(2) m0 src r show ?thesis
    by (simp add: listed_once_value)
qed

text \<open>
  C10. For every cursor made by \<^verbatim>\<open>find\<close> and then used through its methods in any
  way, the head of the chain is defined: \<^verbatim>\<open>nextObject\<close> throws neither 'no source' nor
  anything else, and \<^verbatim>\<open>rewind\<close> does not throw.
\<close>

theorem find_cursor_has_source:
  assumes "used c"
  shows "source c \<noteq> None \<and>
         (\<forall>w t. fst (Cursor_nextObject c w) \<noteq> Throw t) \<and>
         fst (Cursor_rewind c) = None"
proof -
  from used_linked[OF assms] obtain s where s: "source c = Some s" "linked s"
    by (cases "source c") auto
  have "\<forall>w t. fst (Cursor_nextObject c w) \<noteq> Throw t"
    using linked_preserved(1)[of s] s by (simp add: Cursor_nextObject_def case_prod_beta)
  moreover have "fst (Cursor_rewind c) = None"
    using linked_rewind[OF s(2)] s(1) by (simp add: Cursor_rewind_def case_prod_beta)
  ultimately show ?thesis using s(1) by simp
qed

theorem find_cursor_has_source_witness:
  "used (snd (Cursor_rewind (Cursor_limit (Cursor_offset (find demo (Callable (\<lambda>x. x = 123)) Absent) 1) 2))) \<and>
   source (snd (Cursor_rewind (Cursor_limit (Cursor_offset (find demo (Callable (\<lambda>x. x = 123)) Absent) 1) 2))) =
     Some (Limit (Some (Offset (Some (Condition (Some (Source demo None)) (Callable (\<lambda>x. x = 123)))) 1 False)) 2 2) \<and>
   fst (Cursor_rewind (snd (Cursor_rewind (Cursor_limit (Cursor_offset (find demo (Callable (\<lambda>x. x = 123)) Absent) 1) 2)))) = None \<and>
   fst (Cursor_nextObject (snd (Cursor_rewind (Cursor_limit (Cursor_offset (find demo (Callable (\<lambda>x. x = 123)) Absent) 1) 2))) world0) =
     Item 123"
proof -
  let ?c = "snd (Cursor_rewind (Cursor_limit (Cursor_offset (find demo (Callable (\<lambda>x. x = 123)) Absent) 1) 2))"
  have u: "used ?c" by (intro used.intros)
  have src: "source ?c =
     Some (Limit (Some (Offset (Some (Condition (Some (Source demo None)) (Callable (\<lambda>x. x = 123)))) 1 False)) 2 2)"
    by (simp add: find_Condition Cursor_offset_def Cursor_limit_def Cursor_rewind_def)
  have nx: "fst (Cursor_nextObject ?c world0) = Item 123"
    unfolding Cursor_nextObject_def src
    by (simp add: world0_def demo_def Offset_iterator.simps Condition_next.simps)
  from find_cursor_has_source[OF u] u src nx show ?thesis by blast
qed

end
